theory Spec2Isabelle
  imports Complex_Main "HOL-Library.Sublist"
begin

section \<open>Document import of orange3-text: \<^verbatim>\<open>orangecontrib/text/import_documents.py\<close>\<close>

text \<open>
  The module reads a tree of documents (local directory or remote listing) into a corpus.
  Python exceptions are values of \<open>py_exception\<close>; a function that can raise returns
  \<open>py_exception + 'a\<close> with \<open>Inl\<close> the raised exception. Every exception named here is
  an instance of Python's \<open>Exception\<close> class, which is what the clause
  \<^verbatim>\<open>except Exception\<close> of \<open>Reader.read\<close> catches.
\<close>

subsection \<open>Paths (\<^verbatim>\<open>pathlib\<close>, \<^verbatim>\<open>os.path\<close> on POSIX)\<close>

datatype py_exception =
    NoDocumentsException
  | NotImplementedError
  | AttributeError
  | TypeError
  | IndexError
  | RecursionError
  | ConnectionError
  | ValueError
  | OtherException string

text \<open>\<^verbatim>\<open>str.split(sep)\<close> for a one-character separator.\<close>

fun split_on :: "char \<Rightarrow> string \<Rightarrow> string list" where
  "split_on c [] = [[]]"
| "split_on c (x # xs) =
     (if x = c then [] # split_on c xs
      else (case split_on c xs of [] \<Rightarrow> [[x]] | y # ys \<Rightarrow> (x # y) # ys))"

text \<open>
  The components of a pure POSIX path: the pieces between slashes, without the empty
  ones and the \<open>.\<close> ones. \<open>path_root\<close> is the root part (\<open>/\<close>, or \<open>//\<close> for exactly two
  leading slashes).
\<close>

definition path_components :: "string \<Rightarrow> string list" where
  "path_components p = filter (\<lambda>c. c \<noteq> [] \<and> c \<noteq> ''.'') (split_on CHR ''/'' p)"

definition path_root :: "string \<Rightarrow> string" where
  "path_root p =
     (if take 2 p = ''//'' \<and> take 3 p \<noteq> ''///'' then ''//''
      else if take 1 p = ''/'' then ''/'' else [])"

text \<open>\<^verbatim>\<open>PurePath(p).parts\<close>: the root, when there is one, then the components.\<close>

definition path_parts :: "string \<Rightarrow> string list" where
  "path_parts p = (if path_root p = [] then [] else [path_root p]) @ path_components p"

text \<open>\<^verbatim>\<open>PurePath(p).name\<close>: the last component, or the empty string.\<close>

definition path_name :: "string \<Rightarrow> string" where
  "path_name p = (case path_components p of [] \<Rightarrow> [] | cs \<Rightarrow> last cs)"

text \<open>\<^verbatim>\<open>str.rfind('.')\<close> as an option: the index of the last dot.\<close>

fun rfind_dot :: "string \<Rightarrow> nat option" where
  "rfind_dot [] = None"
| "rfind_dot (x # xs) =
     (case rfind_dot xs of
        Some i \<Rightarrow> Some (Suc i)
      | None \<Rightarrow> if x = CHR ''.'' then Some 0 else None)"

text \<open>
  \<^verbatim>\<open>PurePath(p).suffix\<close> and \<^verbatim>\<open>.stem\<close>: with \<open>i\<close> the index of the last dot of the
  name, the suffix is \<open>name[i:]\<close> when \<open>0 < i < len(name) - 1\<close> and empty otherwise.
\<close>

definition name_suffix :: "string \<Rightarrow> string" where
  "name_suffix n =
     (case rfind_dot n of
        Some i \<Rightarrow> if 0 < i \<and> Suc i < length n then drop i n else []
      | None \<Rightarrow> [])"

definition path_suffix :: "string \<Rightarrow> string" where
  "path_suffix p = name_suffix (path_name p)"

definition path_stem :: "string \<Rightarrow> string" where
  "path_stem p =
     (let n = path_name p in
      case rfind_dot n of
        Some i \<Rightarrow> if 0 < i \<and> Suc i < length n then take i n else n
      | None \<Rightarrow> n)"

text \<open>
  \<^verbatim>\<open>PurePath(p).suffixes\<close>: nothing when the name ends with a dot; otherwise the
  name without its leading dots is split at dots and every piece after the first
  gets its dot back.
\<close>

definition path_suffixes :: "string \<Rightarrow> string list" where
  "path_suffixes p =
     (let n = path_name p in
      if n \<noteq> [] \<and> last n = CHR ''.'' then []
      else map (\<lambda>s. CHR ''.'' # s) (tl (split_on CHR ''.'' (dropWhile (\<lambda>c. c = CHR ''.'') n))))"

text \<open>
  \<^verbatim>\<open>PurePath(p).parent.parts\<close>: the parts without the last component (a path with
  no component is its own parent).
\<close>

definition parent_parts :: "string \<Rightarrow> string list" where
  "parent_parts p =
     (if path_root p = [] then [] else [path_root p]) @ butlast (path_components p)"

text \<open>\<^verbatim>\<open>os.path.join(a, b)\<close> on POSIX.\<close>

definition os_path_join :: "string \<Rightarrow> string \<Rightarrow> string" where
  "os_path_join a b =
     (if take 1 b = ''/'' then b
      else if a = [] \<or> last a = CHR ''/'' then a @ b
      else a @ ''/'' @ b)"

subsection \<open>Data: records read from files\<close>

text \<open>
  A table cell is a text, a number, pandas' missing number \<open>NaN\<close>, or Python's
  \<open>None\<close> (a yaml null). A data frame has its column labels and its rows, each row
  aligned with the columns. A reader's content is a text (the document formats), a
  data frame (csv) or a mapping (yaml).
\<close>

datatype cell = Str string | Num rat | NaN | PyNone

record dataframe =
  columns :: "string list"
  rows :: "cell list list"

datatype content =
    Text string
  | Frame dataframe
  | Mapping "(string \<times> cell) list"

text \<open>The named tuple \<^verbatim>\<open>TextData(name, path, ext, category, content)\<close>.\<close>

record text_data =
  name :: string
  path :: string
  ext :: "string list"
  category :: string
  content :: content

subsection \<open>The readers and their registry\<close>

text \<open>
  \<open>Reader\<close> is the base class, the others its subclasses. The metaclass
  \<^verbatim>\<open>Orange.util.Registry\<close> records every subclass, in the order of the class
  statements, and not the base class.
\<close>

datatype reader_cls =
    Reader
  | TxtReader
  | DocxReader
  | OdtReader
  | PdfReader
  | XmlReader
  | CsvMetaReader
  | YamlMetaReader
  | UrlReader

definition registry :: "reader_cls list" where
  "registry =
     [TxtReader, DocxReader, OdtReader, PdfReader, XmlReader, CsvMetaReader,
      YamlMetaReader, UrlReader]"

text \<open>The class attribute \<^verbatim>\<open>ext\<close>; the base class has none.\<close>

fun cls_ext :: "reader_cls \<Rightarrow> string list option" where
  "cls_ext Reader = None"
| "cls_ext TxtReader = Some [''.txt'']"
| "cls_ext DocxReader = Some [''.docx'']"
| "cls_ext OdtReader = Some [''.odt'']"
| "cls_ext PdfReader = Some [''.pdf'']"
| "cls_ext XmlReader = Some [''.xml'']"
| "cls_ext CsvMetaReader = Some [''.csv'']"
| "cls_ext YamlMetaReader = Some [''.yaml'']"
| "cls_ext UrlReader = Some [''.url'']"

record reader =
  cls :: reader_cls
  rpath :: string
  replace_white_space :: bool

text \<open>
  \<^verbatim>\<open>Reader.get_reader\<close>: the first registered class whose \<open>ext\<close> list holds the
  suffix of the path, the base class when there is none. (Every registered class
  has an \<open>ext\<close> list.)
\<close>

fun find_reader :: "string \<Rightarrow> reader_cls list \<Rightarrow> reader_cls" where
  "find_reader e [] = Reader"
| "find_reader e (r # rs) =
     (case cls_ext r of
        Some es \<Rightarrow> if e \<in> set es then r else find_reader e rs
      | None \<Rightarrow> find_reader e rs)"

definition get_reader :: "string \<Rightarrow> reader" where
  "get_reader p =
     \<lparr>cls = find_reader (path_suffix p) registry, rpath = p, replace_white_space = False\<rparr>"

text \<open>The constructor call \<^verbatim>\<open>UrlReader(path)\<close>.\<close>

definition new_UrlReader :: "string \<Rightarrow> reader" where
  "new_UrlReader p = \<lparr>cls = UrlReader, rpath = p, replace_white_space = False\<rparr>"

subsection \<open>The environment and the world\<close>

text \<open>
  What the module takes from outside is a field of \<open>env\<close>: the libraries
  (\<^verbatim>\<open>fnmatch.fnmatch\<close>, \<^verbatim>\<open>str.lower\<close>, \<^verbatim>\<open>unicodedata.normalize('NFC', _)\<close>,
  \<^verbatim>\<open>re.sub(r'\s+', ' ', _)\<close>, the format parsers, \<^verbatim>\<open>get_unique_names\<close>), the file
  system, the network, and the cancellation flag, which another thread sets.
\<close>

datatype fs = Dir "(string \<times> fs) list" "string list"

record response =
  suggested_name :: string
  body :: "py_exception + string"

record env =
  fnmatch :: "string \<Rightarrow> string \<Rightarrow> bool"
  lower :: "string \<Rightarrow> string"
  nfc :: "string \<Rightarrow> string"
  re_sub_ws :: "string \<Rightarrow> string"
  dir_tree :: "string \<Rightarrow> fs option"
  file_bytes :: "string \<Rightarrow> py_exception + string"
  parse :: "reader_cls \<Rightarrow> string \<Rightarrow> py_exception + content"
  listfiles :: "string \<Rightarrow> py_exception + string list list"
  fetch :: "string \<Rightarrow> py_exception + response"
  mkstemp :: "nat \<Rightarrow> string"
  cancelled :: "nat \<Rightarrow> bool"
  rank1 :: "string \<Rightarrow> nat"
  rank2 :: "string \<Rightarrow> nat"
  get_unique_names :: "string list \<Rightarrow> string \<Rightarrow> string"
  recursion_limit :: nat

text \<open>
  \<^item> \<open>dir_tree d\<close>: the directory tree \<^verbatim>\<open>os.walk(d)\<close> walks (sub-directories with
    their names and the file names, in the order the system reports them), \<open>None\<close>
    when \<open>d\<close> is no directory;
  \<^item> \<open>file_bytes p\<close>: opening and reading the local file \<open>p\<close>;
  \<^item> \<open>parse c b\<close>: what the parser behind reader class \<open>c\<close> makes of the bytes \<open>b\<close>;
  \<^item> \<open>listfiles u\<close>: \<^verbatim>\<open>serverfiles.ServerFiles(u).listfiles()\<close>;
  \<^item> \<open>fetch u\<close>: resolving and opening the URL of a \<open>UrlReader\<close>: an exception, or
    the response with the file name \<^verbatim>\<open>_suggest_filename\<close> derives and the outcome
    of \<^verbatim>\<open>f.write(response.read())\<close>;
  \<^item> \<open>mkstemp k\<close>: the name \<^verbatim>\<open>NamedTemporaryFile\<close> picks for the \<open>k\<close>-th temporary
    file, before the suffix;
  \<^item> \<open>cancelled k\<close>: the value of \<^verbatim>\<open>self.cancelled\<close> at the \<open>k\<close>-th time the run
    looks at it;
  \<^item> \<open>rank1\<close>, \<open>rank2\<close>: the iteration orders of the two \<^verbatim>\<open>set\<close> objects of
    \<^verbatim>\<open>_create_corpus\<close> (a set is iterated by increasing rank);
  \<^item> \<open>recursion_limit\<close>: the interpreter's bound on nested calls.
\<close>

text \<open>The argument of the progress callback.\<close>

record notification =
  progress :: rat
  lastpath :: string
  batch :: "text_data list list"

text \<open>
  The world a run changes: the files it has read (in order), the temporary files
  that exist, how many were created, the notifications sent, and the values of the
  cancellation flag it has seen.
\<close>

record world =
  reads :: "string list"
  tmpfiles :: "string list"
  created :: nat
  reports :: "notification list"
  observed :: "bool list"

definition init_world :: world where
  "init_world = \<lparr>reads = [], tmpfiles = [], created = 0, reports = [], observed = []\<rparr>"

subsection \<open>Reading one file\<close>

text \<open>
  \<^verbatim>\<open>UrlReader.read_file\<close>. The URL is opened; a temporary file named after the
  suffixes of the suggested file name is created (\<^verbatim>\<open>delete=False\<close>) and the body
  written to it; \<open>get_reader\<close> picks the reader for the temporary file, its
  \<open>read_file\<close> runs, and \<^verbatim>\<open>os.remove\<close> comes last. An exception leaves at the
  statement that raises it. The reader of the temporary file is a \<open>UrlReader\<close> again
  when the suffix is \<open>.url\<close>: the first argument bounds the nesting, as the
  interpreter does.
\<close>

fun url_read_file :: "nat \<Rightarrow> env \<Rightarrow> string \<Rightarrow> world \<Rightarrow> (py_exception + content) \<times> world" where
  "url_read_file 0 E u w = (Inl RecursionError, w)"
| "url_read_file (Suc n) E u w =
     (case fetch E u of
        Inl e \<Rightarrow> (Inl e, w)
      | Inr resp \<Rightarrow>
          let extension = concat (path_suffixes (suggested_name resp));
              f_name = mkstemp E (created w) @ extension;
              w1 = w\<lparr>created := Suc (created w), tmpfiles := f_name # tmpfiles w\<rparr>
          in (case body resp of
                Inl e \<Rightarrow> (Inl e, w1)
              | Inr bytes \<Rightarrow>
                  let rd = get_reader f_name;
                      (r, w2) =
                        (case cls rd of
                           Reader \<Rightarrow> (Inl NotImplementedError, w1)
                         | UrlReader \<Rightarrow> url_read_file n E f_name w1
                         | c \<Rightarrow> (parse E c bytes, w1))
                  in (case r of
                        Inl e \<Rightarrow> (Inl e, w2)
                      | Inr c \<Rightarrow> (Inr c, w2\<lparr>tmpfiles := remove1 f_name (tmpfiles w2)\<rparr>))))"

text \<open>
  \<open>read_file\<close> of a reader: the base class raises \<open>NotImplementedError\<close>, a format
  reader opens the file and parses it, \<open>UrlReader\<close> fetches.
\<close>

definition read_file :: "env \<Rightarrow> reader \<Rightarrow> world \<Rightarrow> (py_exception + content) \<times> world" where
  "read_file E rd w =
     (case cls rd of
        Reader \<Rightarrow> (Inl NotImplementedError, w)
      | UrlReader \<Rightarrow> url_read_file (recursion_limit E) E (rpath rd) w
      | c \<Rightarrow> (case file_bytes E (rpath rd) of
                Inl e \<Rightarrow> (Inl e, w)
              | Inr bytes \<Rightarrow> (parse E c bytes, w)))"

text \<open>
  \<^verbatim>\<open>Reader.make_text_data\<close>, with the override of \<open>UrlReader\<close> (which replaces \<open>ext\<close>
  by the suffix of the path). \<^verbatim>\<open>directory.parts[-1]\<close> raises \<open>IndexError\<close> on a
  parent without parts; \<^verbatim>\<open>re.sub\<close> raises \<open>TypeError\<close> on a content that is no
  text; the base class has no \<open>ext\<close>.
\<close>

definition make_text_data :: "env \<Rightarrow> reader \<Rightarrow> content \<Rightarrow> py_exception + text_data" where
  "make_text_data E rd c =
     (case parent_parts (rpath rd) of
        [] \<Rightarrow> Inl IndexError
      | ps \<Rightarrow>
          let cat = (if last ps = [] then ''None'' else last ps) in
          (case (if replace_white_space rd
                 then (case c of Text s \<Rightarrow> Inr (Text (re_sub_ws E s)) | _ \<Rightarrow> Inl TypeError)
                 else Inr c) of
             Inl e \<Rightarrow> Inl e
           | Inr c' \<Rightarrow>
               (case cls_ext (cls rd) of
                  None \<Rightarrow> Inl AttributeError
                | Some es \<Rightarrow>
                    Inr \<lparr>name = path_stem (rpath rd), path = rpath rd,
                         ext = (if cls rd = UrlReader then [path_suffix (rpath rd)] else es),
                         category = cat, content = c'\<rparr>)))"

text \<open>
  \<^verbatim>\<open>Reader.read\<close>: \<open>read_file\<close> inside \<^verbatim>\<open>try ... except Exception\<close>, the record made
  in the \<^verbatim>\<open>else\<close> branch (outside the \<^verbatim>\<open>try\<close>). The world notes the path read.
\<close>

definition read :: "env \<Rightarrow> reader \<Rightarrow> world \<Rightarrow> (py_exception + text_data option \<times> string) \<times> world" where
  "read E rd w =
     (let (r, w1) = read_file E rd (w\<lparr>reads := reads w @ [rpath rd]\<rparr>) in
      case r of
        Inl ex \<Rightarrow> (Inr (None, path_name (rpath rd)), w1)
      | Inr c \<Rightarrow>
          (case make_text_data E rd c of
             Inl e \<Rightarrow> (Inl e, w1)
           | Inr t \<Rightarrow> (Inr (Some t, []), w1)))"

subsection \<open>Scanning\<close>

text \<open>\<^verbatim>\<open>matches_any\<close>: the lowercased name against each pattern.\<close>

definition matches_any :: "env \<Rightarrow> string \<Rightarrow> string list \<Rightarrow> bool" where
  "matches_any E fname patterns = (\<exists>pattern \<in> set patterns. fnmatch E (lower E fname) pattern)"

text \<open>
  \<^verbatim>\<open>os.walk\<close>, top down, as \<open>scan\<close> drives it: each directory yields its triple, the
  caller removes from \<open>dirnames\<close> the names that do not satisfy \<open>keep\<close>, and the walk
  goes on into the directories left. A directory is given by the chain of names that
  leads to it from the top; \<open>dirpath_of\<close> is the string \<^verbatim>\<open>os.walk\<close> builds for it.
\<close>

fun os_walk :: "(string \<Rightarrow> bool) \<Rightarrow> string list \<Rightarrow> fs \<Rightarrow> (string list \<times> string list \<times> string list) list" where
  "os_walk keep chain (Dir subs files) =
     (chain, filter keep (map fst subs), files) #
     concat (map (\<lambda>(d, t). os_walk keep (chain @ [d]) t) (filter (\<lambda>(d, t). keep d) subs))"

definition dirpath_of :: "string \<Rightarrow> string list \<Rightarrow> string" where
  "dirpath_of topdir chain = foldl os_path_join topdir chain"

text \<open>\<^verbatim>\<open>ImportDocuments.scan\<close>; \<open>include_patterns\<close> may be \<open>None\<close>.\<close>

definition hidden :: "env \<Rightarrow> string \<Rightarrow> bool" where
  "hidden E dirname = fnmatch E dirname ''.*''"

definition walked :: "env \<Rightarrow> string \<Rightarrow> (string list \<times> string list \<times> string list) list" where
  "walked E topdir =
     (case dir_tree E topdir of
        None \<Rightarrow> []
      | Some t \<Rightarrow> os_walk (\<lambda>d. \<not> hidden E d) [] t)"

definition scan :: "env \<Rightarrow> string \<Rightarrow> string list option \<Rightarrow> string list \<Rightarrow> string list" where
  "scan E topdir include_patterns exclude_patterns =
     (let inc = (case include_patterns of None \<Rightarrow> [''*''] | Some ps \<Rightarrow> ps) in
      concat (map (\<lambda>(chain, dirnames, filenames).
                map (os_path_join (dirpath_of topdir chain))
                  (filter (\<lambda>fname. matches_any E fname inc \<and> \<not> matches_any E fname exclude_patterns)
                     filenames))
              (walked E topdir)))"

text \<open>\<^verbatim>\<open>"/".join(filename)\<close>.\<close>

fun join_slash :: "string list \<Rightarrow> string" where
  "join_slash [] = []"
| "join_slash [x] = x"
| "join_slash (x # y # zs) = x @ ''/'' @ join_slash (y # zs)"

text \<open>
  \<^verbatim>\<open>ImportDocuments.scan_url\<close>: a \<open>ConnectionError\<close> of the listing gives the empty
  list, any other exception leaves the function.
\<close>

definition scan_url :: "env \<Rightarrow> string \<Rightarrow> string list option \<Rightarrow> string list \<Rightarrow> py_exception + string list" where
  "scan_url E topdir include_patterns exclude_patterns =
     (case listfiles E topdir of
        Inl e \<Rightarrow> if e = ConnectionError then Inr [] else Inl e
      | Inr files \<Rightarrow>
          let inc = (case include_patterns of None \<Rightarrow> [''*''] | Some ps \<Rightarrow> if ps = [] then [''*''] else ps)
          in Inr (filter (\<lambda>p. matches_any E p inc \<and> \<not> matches_any E p exclude_patterns)
                    (map (\<lambda>filename. topdir @ join_slash filename) files)))"

subsection \<open>The pipeline\<close>

text \<open>
  The object \<^verbatim>\<open>ImportDocuments\<close>: \<open>report_progress\<close> says whether a callback was
  given. \<open>new_ImportDocuments\<close> is the constructor.
\<close>

record import_documents =
  startdir :: string
  formats :: "string list"
  report_progress :: bool
  is_url :: bool

definition new_ImportDocuments :: "string \<Rightarrow> bool \<Rightarrow> string list \<Rightarrow> bool \<Rightarrow> import_documents" where
  "new_ImportDocuments sd url fmts rp =
     \<lparr>startdir =
        (if url \<and> \<not> (sd \<noteq> [] \<and> last sd = CHR ''/'') then sd @ ''/''
         else if \<not> url then os_path_join sd [] else sd),
      formats = fmts, report_progress = rp, is_url = url\<rparr>"

definition DefaultFormats :: "string list" where
  "DefaultFormats = [''docx'', ''odt'', ''txt'', ''pdf'', ''xml'']"

definition do_scan :: "env \<Rightarrow> import_documents \<Rightarrow> string list \<Rightarrow> py_exception + string list" where
  "do_scan E self patterns =
     (if is_url self then scan_url E (startdir self) (Some patterns) [''.*'']
      else Inr (scan E (startdir self) (Some patterns) [''.*'']))"

definition reader_for :: "import_documents \<Rightarrow> string \<Rightarrow> reader" where
  "reader_for self p = (if \<not> is_url self then get_reader p else new_UrlReader p)"

text \<open>Reading \<^verbatim>\<open>self.cancelled\<close>: the world notes the value seen.\<close>

definition check_cancelled :: "env \<Rightarrow> world \<Rightarrow> bool \<times> world" where
  "check_cancelled E w =
     (let b = cancelled E (length (observed w)) in (b, w\<lparr>observed := observed w @ [b]\<rparr>))"

text \<open>
  The loop of \<^verbatim>\<open>_read_text_data\<close> over the paths left. \<open>td\<close> is \<open>text_data\<close>, \<open>errs\<close>
  is \<open>errors\<close>. The list \<open>batch\<close> only ever holds references to the one list
  \<open>text_data\<close> (\<^verbatim>\<open>batch.append(text_data)\<close>), so it is given by its length \<open>nb\<close>; a
  notification carries its value when the callback is called. The result \<open>None\<close> is
  the bare \<^verbatim>\<open>return\<close> on cancellation.
\<close>

definition report_step :: "import_documents \<Rightarrow> nat \<Rightarrow> string \<Rightarrow> text_data list \<Rightarrow> nat \<Rightarrow> world \<Rightarrow> nat \<times> world" where
  "report_step self n_paths p td nb w =
     (if nb = 1 \<and> report_progress self
      then (0, w\<lparr>reports := reports w @
                   [\<lparr>progress = of_nat (length td) / of_nat n_paths, lastpath = p,
                     batch = replicate nb td\<rparr>]\<rparr>)
      else (nb, w))"

definition collect_text :: "text_data option \<Rightarrow> string \<Rightarrow> text_data list \<Rightarrow> string list \<Rightarrow> nat
    \<Rightarrow> text_data list \<times> string list \<times> nat" where
  "collect_text text error td errs nb =
     (case text of
        Some t \<Rightarrow> (td @ [t], errs, Suc nb)
      | None \<Rightarrow> (td, errs @ [error], nb))"

fun text_loop :: "env \<Rightarrow> import_documents \<Rightarrow> nat \<Rightarrow> string list \<Rightarrow> text_data list \<Rightarrow> string list \<Rightarrow> nat \<Rightarrow> world
    \<Rightarrow> (py_exception + (text_data list \<times> string list) option) \<times> world" where
  "text_loop E self n_paths [] td errs nb w = (Inr (Some (td, errs)), w)"
| "text_loop E self n_paths (p # ps) td errs nb w =
     (case report_step self n_paths p td nb w of
        (nb1, w1) \<Rightarrow>
          (case read E (reader_for self p) w1 of
             (Inl e, w2) \<Rightarrow> (Inl e, w2)
           | (Inr (text, error), w2) \<Rightarrow>
               (case collect_text text error td errs nb1 of
                  (td', errs', nb2) \<Rightarrow>
                    (case check_cancelled E w2 of
                       (c, w3) \<Rightarrow>
                         if c then (Inr None, w3)
                         else text_loop E self n_paths ps td' errs' nb2 w3))))"

definition read_text_data :: "env \<Rightarrow> import_documents \<Rightarrow> world
    \<Rightarrow> (py_exception + (text_data list \<times> string list) option) \<times> world" where
  "read_text_data E self w =
     (case do_scan E self (map (\<lambda>fmt. ''*.'' @ lower E fmt) (formats self)) of
        Inl e \<Rightarrow> (Inl e, w)
      | Inr paths \<Rightarrow>
          if length paths = 0 then (Inl NoDocumentsException, w)
          else text_loop E self (length paths) paths [] [] 0 w)"

text \<open>
  \<^verbatim>\<open>pd.concat\<close> of the contents collected: a \<open>TypeError\<close> when one of them is no data
  frame; otherwise the columns in the order of their first appearance and every row
  filled up with missing cells.
\<close>

definition unique_first :: "'a list \<Rightarrow> 'a list" where
  "unique_first xs = rev (remdups (rev xs))"

definition cell_of :: "string list \<Rightarrow> cell list \<Rightarrow> string \<Rightarrow> cell" where
  "cell_of cols row c = (case map_of (zip cols row) c of Some v \<Rightarrow> v | None \<Rightarrow> NaN)"

fun frames_of :: "content list \<Rightarrow> dataframe list option" where
  "frames_of [] = Some []"
| "frames_of (Frame f # cs) = map_option ((#) f) (frames_of cs)"
| "frames_of (_ # cs) = None"

definition pd_concat :: "content list \<Rightarrow> py_exception + dataframe" where
  "pd_concat cs =
     (case frames_of cs of
        None \<Rightarrow> Inl TypeError
      | Some fs \<Rightarrow>
          let cols = unique_first (concat (map columns fs)) in
          Inr \<lparr>columns = cols,
               rows = concat (map (\<lambda>f. map (\<lambda>r. map (cell_of (columns f) r) cols) (rows f)) fs)\<rparr>)"

text \<open>\<^verbatim>\<open>pd.DataFrame(content, index=[0])\<close> for a mapping: one row.\<close>

definition as_frame :: "content \<Rightarrow> content" where
  "as_frame c = (case c of Mapping m \<Rightarrow> Frame \<lparr>columns = map fst m, rows = [map snd m]\<rparr> | _ \<Rightarrow> c)"

definition collect_meta :: "text_data option \<Rightarrow> string \<Rightarrow> content list \<Rightarrow> string list
    \<Rightarrow> content list \<times> string list" where
  "collect_meta data error meta_dfs errs =
     (case data of
        Some d \<Rightarrow> (meta_dfs @ [as_frame (content d)], errs)
      | None \<Rightarrow> (meta_dfs, errs @ [error]))"

fun meta_loop :: "env \<Rightarrow> import_documents \<Rightarrow> string list \<Rightarrow> content list \<Rightarrow> string list \<Rightarrow> world
    \<Rightarrow> (py_exception + (dataframe option \<times> string list) option) \<times> world" where
  "meta_loop E self [] meta_dfs errs w =
     (if meta_dfs = [] then (Inr (Some (None, errs)), w)
      else (case pd_concat meta_dfs of
              Inl e \<Rightarrow> (Inl e, w)
            | Inr df \<Rightarrow> (Inr (Some (Some df, errs)), w)))"
| "meta_loop E self (p # ps) meta_dfs errs w =
     (case read E (reader_for self p) w of
        (Inl e, w1) \<Rightarrow> (Inl e, w1)
      | (Inr (data, error), w1) \<Rightarrow>
          (case collect_meta data error meta_dfs errs of
             (meta_dfs', errs') \<Rightarrow>
               (case check_cancelled E w1 of
                  (c, w2) \<Rightarrow>
                    if c then (Inr None, w2)
                    else meta_loop E self ps meta_dfs' errs' w2)))"

definition read_meta_data :: "env \<Rightarrow> import_documents \<Rightarrow> world
    \<Rightarrow> (py_exception + (dataframe option \<times> string list) option) \<times> world" where
  "read_meta_data E self w =
     (case do_scan E self [''*.csv'', ''*.yaml'', ''*.yml''] of
        Inl e \<Rightarrow> (Inl e, w)
      | Inr paths \<Rightarrow> meta_loop E self paths [] [] w)"

subsection \<open>Corpus assembly and metadata join\<close>

text \<open>
  The corpus (\<^verbatim>\<open>Orange\<close>'s table, as far as this module fills it): the class
  variables with their values, the class column \<open>Y\<close> (one row per document; a value is
  an index into the variable's values, or \<open>None\<close> for unknown), the names of the meta
  columns and the meta rows; \<open>title_vars\<close> are the columns with the
  attribute \<open>title\<close>, \<open>text_features\<close> the text columns.
\<close>

record corpus =
  class_vars :: "(string \<times> string list) list"
  Y :: "nat option list list"
  meta_names :: "string list"
  metas :: "cell list list"
  title_vars :: "string list"
  text_features :: "string list"

text \<open>\<^verbatim>\<open>list(set(xs))\<close>: the distinct elements, iterated by increasing rank.\<close>

definition py_set_list :: "(string \<Rightarrow> nat) \<Rightarrow> string list \<Rightarrow> string list" where
  "py_set_list rank xs = sort_key rank (remdups xs)"

text \<open>The position of the first occurrence of a value in a list, the length when there is none.\<close>

fun index_of :: "'a list \<Rightarrow> 'a \<Rightarrow> nat" where
  "index_of [] c = 0"
| "index_of (v # vs) c = (if v = c then 0 else Suc (index_of vs c))"

text \<open>
  \<^verbatim>\<open>DiscreteVariable.to_val\<close> of \<^verbatim>\<open>Orange\<close> on a string: unknown for one of the
  strings that stand for a missing value, a \<open>ValueError\<close> for a string that is not
  among the values, and the index of the value otherwise.
\<close>

definition MISSING_VALUES :: "string list" where
  "MISSING_VALUES = [''?'', ''nan'', ''.'', [], ''NA'', ''~'']"

definition to_val :: "string list \<Rightarrow> string \<Rightarrow> py_exception + nat option" where
  "to_val vs c =
     (if c \<in> set MISSING_VALUES then Inr None
      else if c \<notin> set vs then Inl ValueError
      else Inr (Some (index_of vs c)))"

text \<open>
  The loop of \<^verbatim>\<open>_create_corpus\<close>: the rows
  \<^verbatim>\<open>[normalize(name), normalize(path), normalize(content)]\<close> and the values of the
  categories. \<^verbatim>\<open>normalize\<close> raises \<open>TypeError\<close> on a content that is no text.
\<close>

fun corpus_rows :: "env \<Rightarrow> string list \<Rightarrow> text_data list \<Rightarrow> py_exception + cell list list \<times> nat option list" where
  "corpus_rows E values [] = Inr ([], [])"
| "corpus_rows E values (t # ts) =
     (case content t of
        Text s \<Rightarrow>
          (case to_val values (category t) of
             Inl e \<Rightarrow> Inl e
           | Inr v \<Rightarrow>
               (case corpus_rows E values ts of
                  Inl e \<Rightarrow> Inl e
                | Inr (rs, vs) \<Rightarrow>
                    Inr ([Str (nfc E (name t)), Str (nfc E (path t)), Str (nfc E s)] # rs, v # vs)))
      | _ \<Rightarrow> Inl TypeError)"

definition create_corpus :: "env \<Rightarrow> text_data list \<Rightarrow> py_exception + corpus option" where
  "create_corpus E td =
     (let names = [''name'', ''path'', ''content''];
          text_categories = py_set_list (rank1 E) (map category td);
          values = py_set_list (rank2 E) text_categories
      in case corpus_rows E values td of
           Inl e \<Rightarrow> Inl e
         | Inr (data, category_data) \<Rightarrow>
             let multi = (length text_categories > 1);
                 category_var = (if multi then [(''category'', values)] else []);
                 y = (if multi then map (\<lambda>v. [v]) category_data else replicate (length data) [])
             in if length data \<noteq> 0
                then Inr (Some \<lparr>class_vars = category_var, Y = y, meta_names = names, metas = data,
                               title_vars = [''name''], text_features = [''content'']\<rparr>)
                else Inr None)"

text \<open>
  The names \<^verbatim>\<open>get_unique_names\<close> takes from a domain (its variables, then its
  metas); \<^verbatim>\<open>"path" in corpus.domain\<close> looks among the same.
\<close>

definition domain_names :: "corpus \<Rightarrow> string list" where
  "domain_names c = map fst (class_vars c) @ meta_names c"

definition META_DATA_FILE_KEY :: string where
  "META_DATA_FILE_KEY = ''Text file''"

text \<open>
  \<^verbatim>\<open>df[~df.index.duplicated(keep='first')]\<close>: the rows whose label has not occurred
  before (\<open>seen\<close> holds the labels that have).
\<close>

fun keep_first :: "'k list \<Rightarrow> ('k \<times> 'r) list \<Rightarrow> ('k \<times> 'r) list" where
  "keep_first seen [] = []"
| "keep_first seen ((k, r) # xs) =
     (if k \<in> set seen then keep_first seen xs else (k, r) # keep_first (k # seen) xs)"

text \<open>\<^verbatim>\<open>df.reindex(labels)\<close> on unique labels: the row of each label, or a row of missing cells.\<close>

definition reindex :: "nat \<Rightarrow> ('k \<times> cell list) list \<Rightarrow> 'k list \<Rightarrow> cell list list" where
  "reindex width df labels =
     map (\<lambda>l. case map_of df l of Some r \<Rightarrow> r | None \<Rightarrow> replicate width NaN) labels"

text \<open>\<^verbatim>\<open>corpus.get_column_view(n)[0]\<close> for a meta column, and a column of data frame rows.\<close>

definition column_at :: "nat \<Rightarrow> cell list list \<Rightarrow> cell list" where
  "column_at j rs = map (\<lambda>r. if j < length r then r ! j else NaN) rs"

definition get_column_view :: "corpus \<Rightarrow> string \<Rightarrow> cell list" where
  "get_column_view c n = column_at (index_of (meta_names c) n) (metas c)"

text \<open>\<^verbatim>\<open>corpus.add_column(StringVariable(n), values, to_metas=True)\<close>.\<close>

definition add_column :: "corpus \<Rightarrow> string \<Rightarrow> cell list \<Rightarrow> corpus" where
  "add_column c n vals =
     c\<lparr>meta_names := meta_names c @ [n],
       metas := map (\<lambda>(r, v). r @ [v]) (zip (metas c) vals)\<rparr>"

text \<open>The loop over \<^verbatim>\<open>filtered.columns\<close>; \<open>j\<close> is the position of the column.\<close>

fun add_columns :: "env \<Rightarrow> cell list list \<Rightarrow> nat \<Rightarrow> string list \<Rightarrow> corpus \<Rightarrow> corpus" where
  "add_columns E filtered j [] c = c"
| "add_columns E filtered j (col # cols) c =
     add_columns E filtered (Suc j) cols
       (add_column c (get_unique_names E (domain_names c) col) (column_at j filtered))"

text \<open>
  \<^verbatim>\<open>self._meta_data["Text file"]\<close>, and the type pandas gives a column: \<open>object\<close>
  when it holds a text or a \<open>None\<close> (or nothing at all), a number type when it holds
  numbers and \<open>NaN\<close> only.
\<close>

definition key_column :: "dataframe \<Rightarrow> cell list" where
  "key_column df = map (\<lambda>r. cell_of (columns df) r META_DATA_FILE_KEY) (rows df)"

fun is_object :: "cell \<Rightarrow> bool" where
  "is_object (Str v) = True"
| "is_object PyNone = True"
| "is_object (Num x) = False"
| "is_object NaN = False"

fun is_num :: "cell \<Rightarrow> bool" where
  "is_num (Num x) = True"
| "is_num c = False"

definition object_dtype :: "cell list \<Rightarrow> bool" where
  "object_dtype col = (col = [] \<or> list_ex is_object col)"

text \<open>
  \<^verbatim>\<open>self.startdir + column\<close>: a \<open>TypeError\<close> on a column of a number type; on an
  \<open>object\<close> column the texts get the prefix, the missing cells give \<open>NaN\<close>, and a
  number among them is a \<open>TypeError\<close>.
\<close>

fun prefix_cell :: "string \<Rightarrow> cell \<Rightarrow> cell" where
  "prefix_cell sd (Str v) = Str (sd @ v)"
| "prefix_cell sd c = NaN"

definition str_add_column :: "string \<Rightarrow> cell list \<Rightarrow> py_exception + cell list" where
  "str_add_column sd col =
     (if \<not> object_dtype col \<or> list_ex is_num col then Inl TypeError
      else Inr (map (prefix_cell sd) col))"

text \<open>The data frame with the index \<^verbatim>\<open>self.startdir + meta["Text file"]\<close>: label and row.\<close>

definition set_index :: "string \<Rightarrow> dataframe \<Rightarrow> py_exception + (cell \<times> cell list) list" where
  "set_index sd df =
     (case str_add_column sd (key_column df) of
        Inl e \<Rightarrow> Inl e
      | Inr labels \<Rightarrow>
          Inr (zip labels (map (\<lambda>r. map (cell_of (columns df) r) (columns df)) (rows df))))"

text \<open>
  \<^verbatim>\<open>_add_metadata\<close>. The first test reads \<^verbatim>\<open>corpus.domain\<close>, an \<open>AttributeError\<close> when
  the corpus is \<open>None\<close>.
\<close>

definition add_metadata :: "env \<Rightarrow> import_documents \<Rightarrow> dataframe option \<Rightarrow> corpus option
    \<Rightarrow> py_exception + corpus option" where
  "add_metadata E self meta_data corp =
     (case corp of
        None \<Rightarrow> Inl AttributeError
      | Some c \<Rightarrow>
          (case meta_data of
             None \<Rightarrow> Inr (Some c)
           | Some md \<Rightarrow>
               if ''path'' \<notin> set (domain_names c) \<or> META_DATA_FILE_KEY \<notin> set (columns md)
               then Inr (Some c)
               else
                 (case set_index (startdir self) md of
                    Inl e \<Rightarrow> Inl e
                  | Inr indexed \<Rightarrow>
                      let df = keep_first [] indexed;
                          path_column = get_column_view c ''path'';
                          filtered = reindex (length (columns md)) df path_column
                      in Inr (Some (add_columns E filtered 0 (columns md) c)))))"

text \<open>
  \<^verbatim>\<open>ImportDocuments.run\<close>. Each of the first two statements unpacks a pair, a
  \<open>TypeError\<close> when the method has returned \<open>None\<close>.
\<close>

definition run :: "env \<Rightarrow> import_documents \<Rightarrow> world
    \<Rightarrow> (py_exception + corpus option \<times> string list) \<times> world" where
  "run E self w =
     (case read_text_data E self w of
        (Inl e, w1) \<Rightarrow> (Inl e, w1)
      | (Inr None, w1) \<Rightarrow> (Inl TypeError, w1)
      | (Inr (Some (text_data, errors_text)), w1) \<Rightarrow>
          (case read_meta_data E self w1 of
             (Inl e, w2) \<Rightarrow> (Inl e, w2)
           | (Inr None, w2) \<Rightarrow> (Inl TypeError, w2)
           | (Inr (Some (meta_data, errors_meta)), w2) \<Rightarrow>
               (case create_corpus E text_data of
                  Inl e \<Rightarrow> (Inl e, w2)
                | Inr corp \<Rightarrow>
                    (case add_metadata E self meta_data corp of
                       Inl e \<Rightarrow> (Inl e, w2)
                     | Inr corp' \<Rightarrow> (Inr (corp', errors_text @ errors_meta), w2)))))"

subsection \<open>A concrete environment\<close>

text \<open>
  The theorems below hold for every environment. To run the definitions, here is
  one: \<open>glob_match\<close> is \<^verbatim>\<open>fnmatch\<close> on patterns made of literal characters, \<open>*\<close> and
  \<open>?\<close>; the directory \<open>/data/\<close> holds two category directories, a hidden directory,
  a csv file and a yml file; \<open>bad.txt\<close> cannot be read.
\<close>

fun glob_match :: "string \<Rightarrow> string \<Rightarrow> bool" where
  "glob_match [] [] = True"
| "glob_match (c # cs) [] = False"
| "glob_match [] (p # ps) = (p = CHR ''*'' \<and> glob_match [] ps)"
| "glob_match (c # cs) (p # ps) =
     (if p = CHR ''*'' then glob_match (c # cs) ps \<or> glob_match cs (p # ps)
      else (p = CHR ''?'' \<or> p = c) \<and> glob_match cs ps)"

definition demo_tree :: fs where
  "demo_tree =
     Dir [(''.git'', Dir [] [''c.txt'']),
          (''catA'', Dir [] [''a.txt'', ''bad.txt'']),
          (''catB'', Dir [] [''b.txt''])]
         [''m.csv'', ''e.yml'']"

definition demo_frame :: dataframe where
  "demo_frame =
     \<lparr>columns = [''Text file'', ''path''],
      rows = [[Str ''catA/a.txt'', Str ''first''],
              [Str ''catA/a.txt'', Str ''second''],
              [Str ''catB/zz.txt'', Str ''other'']]\<rparr>"

definition demo_parse :: "reader_cls \<Rightarrow> string \<Rightarrow> py_exception + content" where
  "demo_parse c b =
     (if c = CsvMetaReader then Inr (Frame demo_frame)
      else if c = YamlMetaReader then Inr (Mapping [(''Text file'', Str b)])
      else Inr (Text b))"

definition demo_unique :: "string list \<Rightarrow> string \<Rightarrow> string" where
  "demo_unique ns n = (if n \<in> set ns then n @ replicate (Suc (size_list length ns)) CHR ''+'' else n)"

definition demo_env :: env where
  "demo_env =
     \<lparr>fnmatch = glob_match, lower = id, nfc = id, re_sub_ws = id,
      dir_tree = (\<lambda>d. if d = ''/data/'' then Some demo_tree
                       else if d = ''/void/'' then Some (Dir [] []) else None),
      file_bytes = (\<lambda>p. if path_name p = ''bad.txt'' then Inl (OtherException ''denied'') else Inr p),
      parse = demo_parse,
      listfiles = (\<lambda>u. Inr [[''m.yml'']]),
      fetch = (\<lambda>u. if path_suffix u = ''.yml''
                     then Inr \<lparr>suggested_name = ''m.yaml'', body = Inr ''k''\<rparr>
                     else Inr \<lparr>suggested_name = ''x.bin'', body = Inr ''k''\<rparr>),
      mkstemp = (\<lambda>k. ''/tmp/t'' @ replicate k CHR ''x''),
      cancelled = (\<lambda>k. False),
      rank1 = length, rank2 = length,
      get_unique_names = demo_unique,
      recursion_limit = 3\<rparr>"

definition demo_local :: import_documents where
  "demo_local = new_ImportDocuments ''/data'' False DefaultFormats True"

definition demo_void :: import_documents where
  "demo_void = new_ImportDocuments ''/void'' False DefaultFormats True"

definition demo_remote :: import_documents where
  "demo_remote = new_ImportDocuments ''http://h'' True DefaultFormats False"

subsection \<open>Notions for the statements\<close>

text \<open>
  Every file of a directory tree, with the chain of directory names that leads to
  it, in the order of a top-down walk.
\<close>

fun fs_files :: "string list \<Rightarrow> fs \<Rightarrow> (string list \<times> string) list" where
  "fs_files chain (Dir subs files) =
     map (Pair chain) files @ concat (map (\<lambda>(d, t). fs_files (chain @ [d]) t) subs)"

text \<open>The files of the triples of a walk that satisfy \<open>P\<close>, each with its chain.\<close>

definition walk_files :: "(string \<Rightarrow> bool) \<Rightarrow> (string list \<times> string list \<times> string list) list \<Rightarrow> (string list \<times> string) list" where
  "walk_files P W = concat (map (\<lambda>(ch, dns, fns). map (Pair ch) (filter P fns)) W)"

text \<open>
  What the join is to put beside a corpus row with path \<open>k\<close>: the cells of the first
  row of the metadata table whose key (the root location followed by the value of
  the file column) is \<open>k\<close>, or missing cells when there is no such row.
\<close>

definition first_match_row :: "string \<Rightarrow> dataframe \<Rightarrow> cell \<Rightarrow> cell list" where
  "first_match_row sd md k =
     (case find (\<lambda>r. prefix_cell sd (cell_of (columns md) r META_DATA_FILE_KEY) = k) (rows md) of
        Some r \<Rightarrow> map (cell_of (columns md) r) (columns md)
      | None \<Rightarrow> replicate (length (columns md)) NaN)"

subsection \<open>More concrete data\<close>

text \<open>
  Variants of the environment (the flag is seen set at the second look; no file can
  be read), the records of \<open>a.txt\<close> and \<open>b.txt\<close>, and a corpus of two documents.
\<close>

definition demo_cancel_env :: env where
  "demo_cancel_env = demo_env\<lparr>cancelled := (\<lambda>k. k = 1)\<rparr>"

definition demo_denied_env :: env where
  "demo_denied_env = demo_env\<lparr>file_bytes := (\<lambda>p. Inl (OtherException ''denied''))\<rparr>"

definition demo_doc :: text_data where
  "demo_doc = \<lparr>name = ''a'', path = ''/data/catA/a.txt'', ext = [''.txt''], category = ''catA'',
                content = Text ''/data/catA/a.txt''\<rparr>"

definition demo_doc_b :: text_data where
  "demo_doc_b = \<lparr>name = ''b'', path = ''/data/catB/b.txt'', ext = [''.txt''], category = ''catB'',
                  content = Text ''/data/catB/b.txt''\<rparr>"

definition demo_corpus :: corpus where
  "demo_corpus =
     \<lparr>class_vars = [(''category'', [''catA'', ''catB''])], Y = [[Some 0], [Some 1]],
      meta_names = [''name'', ''path'', ''content''],
      metas = [[Str ''a'', Str ''/data/catA/a.txt'', Str ''text a''],
               [Str ''b'', Str ''/data/catB/b.txt'', Str ''text b'']],
      title_vars = [''name''], text_features = [''content'']\<rparr>"

section \<open>Properties\<close>

subsection \<open>Reader dispatch and the failure boundary of \<open>read\<close>\<close>

lemma find_reader_fallback:
  "(\<And>c es. c \<in> set rs \<Longrightarrow> cls_ext c = Some es \<Longrightarrow> e \<notin> set es) \<Longrightarrow> find_reader e rs = Reader"
  by (induction rs) (auto split: option.splits)

text \<open>
  Claim C4. When the suffix of a path is in the \<open>ext\<close> list of no registered reader,
  \<open>get_reader\<close> returns the base reader, and \<open>read\<close> on it returns no record and the
  name of the file as the error label. For every reader, when \<open>read_file\<close> raises,
  \<open>read\<close> returns no record and the name of the file: the exception does not leave
  \<open>read\<close>. (An exception is an instance of \<open>Exception\<close>, here as everywhere.)
\<close>

theorem fallback_reader_fails:
  "((\<forall>c \<in> set registry. \<forall>es. cls_ext c = Some es \<longrightarrow> path_suffix p \<notin> set es) \<longrightarrow>
      cls (get_reader p) = Reader \<and>
      read E (get_reader p) w = (Inr (None, path_name p), w\<lparr>reads := reads w @ [p]\<rparr>)) \<and>
   (\<forall>rd ex w1. read_file E rd (w\<lparr>reads := reads w @ [rpath rd]\<rparr>) = (Inl ex, w1) \<longrightarrow>
      read E rd w = (Inr (None, path_name (rpath rd)), w1))"
proof (intro conjI impI allI)
  assume h: "\<forall>c \<in> set registry. \<forall>es. cls_ext c = Some es \<longrightarrow> path_suffix p \<notin> set es"
  then have "find_reader (path_suffix p) registry = Reader"
    by (intro find_reader_fallback) blast
  then show c: "cls (get_reader p) = Reader"
    by (simp add: get_reader_def)
  then show "read E (get_reader p) w = (Inr (None, path_name p), w\<lparr>reads := reads w @ [p]\<rparr>)"
    by (simp add: read_def read_file_def get_reader_def)
next
  fix rd ex w1
  assume "read_file E rd (w\<lparr>reads := reads w @ [rpath rd]\<rparr>) = (Inl ex, w1)"
  then show "read E rd w = (Inr (None, path_name (rpath rd)), w1)"
    by (simp add: read_def)
qed

theorem fallback_reader_fails_witness:
  "cls (get_reader ''/data/e.yml'') = Reader \<and>
   read demo_env (get_reader ''/data/e.yml'') init_world =
     (Inr (None, ''e.yml''), init_world\<lparr>reads := [''/data/e.yml'']\<rparr>) \<and>
   read demo_env (get_reader ''/data/catA/bad.txt'') init_world =
     (Inr (None, ''bad.txt''), init_world\<lparr>reads := [''/data/catA/bad.txt'']\<rparr>)"
proof -
  have s: "path_suffix ''/data/e.yml'' = ''.yml''" "path_name ''/data/e.yml'' = ''e.yml''"
    "path_name ''/data/catA/bad.txt'' = ''bad.txt''"
    by (simp_all add: path_suffix_def path_name_def path_components_def name_suffix_def)
  have h: "\<forall>c \<in> set registry. \<forall>es. cls_ext c = Some es \<longrightarrow> path_suffix ''/data/e.yml'' \<notin> set es"
    by (simp add: registry_def s)
  have r: "read_file demo_env (get_reader ''/data/catA/bad.txt'')
             (init_world\<lparr>reads := reads init_world @ [rpath (get_reader ''/data/catA/bad.txt'')]\<rparr>) =
           (Inl (OtherException ''denied''), init_world\<lparr>reads := [''/data/catA/bad.txt'']\<rparr>)"
    by (simp add: read_file_def get_reader_def registry_def demo_env_def init_world_def s
        path_suffix_def name_suffix_def)
  note t = fallback_reader_fails [of "''/data/e.yml''" demo_env init_world]
  from t h have a: "cls (get_reader ''/data/e.yml'') = Reader"
    and b: "read demo_env (get_reader ''/data/e.yml'') init_world =
      (Inr (None, path_name ''/data/e.yml''), init_world\<lparr>reads := reads init_world @ [''/data/e.yml'']\<rparr>)"
    by blast+
  from t r have c: "read demo_env (get_reader ''/data/catA/bad.txt'') init_world =
      (Inr (None, path_name (rpath (get_reader ''/data/catA/bad.txt''))),
       init_world\<lparr>reads := [''/data/catA/bad.txt'']\<rparr>)"
    by blast
  have d: "rpath (get_reader ''/data/catA/bad.txt'') = ''/data/catA/bad.txt''"
    by (simp add: get_reader_def)
  from a b c show ?thesis
    unfolding d s by (simp add: init_world_def)
qed

subsection \<open>The run\<close>

text \<open>
  Claim C1. When the scan for documents finds no path, \<open>run\<close> raises
  \<open>NoDocumentsException\<close>; the world is the one it started in, so no file was read,
  and there is no corpus.
\<close>

theorem no_documents:
  "do_scan E self (map (\<lambda>fmt. ''*.'' @ lower E fmt) (formats self)) = Inr [] \<Longrightarrow>
   run E self w = (Inl NoDocumentsException, w)"
  by (simp add: run_def read_text_data_def)

theorem no_documents_witness:
  "do_scan demo_env demo_void (map (\<lambda>fmt. ''*.'' @ lower demo_env fmt) (formats demo_void)) = Inr [] \<and>
   run demo_env demo_void init_world = (Inl NoDocumentsException, init_world) \<and>
   reads init_world = []"
proof -
  have h: "do_scan demo_env demo_void (map (\<lambda>fmt. ''*.'' @ lower demo_env fmt) (formats demo_void)) = Inr []"
    by (simp add: do_scan_def demo_void_def new_ImportDocuments_def scan_def walked_def demo_env_def
        os_path_join_def)
  from no_documents [OF h, of init_world] h show ?thesis
    by (simp add: init_world_def)
qed

subsection \<open>The local scan\<close>

lemma fs_files_prefix: "(ch, f) \<in> set (fs_files chain t) \<Longrightarrow> \<exists>ext. ch = chain @ ext"
proof (induction chain t arbitrary: ch f rule: fs_files.induct)
  case (1 chain subs files)
  from "1.prems" consider "ch = chain" | d t where "(d, t) \<in> set subs" "(ch, f) \<in> set (fs_files (chain @ [d]) t)"
    by auto
  then show ?case
  proof cases
    case 1
    then show ?thesis by simp
  next
    case 2
    from "1.IH" [OF 2(1) refl 2(2)] obtain ext where "ch = (chain @ [d]) @ ext" by blast
    then show ?thesis by simp
  qed
qed

lemma concat_map_filter_eq:
  "(\<And>x. x \<in> set xs \<Longrightarrow> K x \<Longrightarrow> F x = G x) \<Longrightarrow> (\<And>x. x \<in> set xs \<Longrightarrow> \<not> K x \<Longrightarrow> G x = [])
   \<Longrightarrow> concat (map F (filter K xs)) = concat (map G xs)"
  by (induction xs) auto

lemma walk_files_simps [simp]:
  "walk_files P [] = []"
  "walk_files P ((ch, dns, fns) # W) = map (Pair ch) (filter P fns) @ walk_files P W"
  "walk_files P (W @ W') = walk_files P W @ walk_files P W'"
  by (simp_all add: walk_files_def)

lemma walk_files_concat: "walk_files P (concat Ws) = concat (map (walk_files P) Ws)"
  by (induction Ws) simp_all

lemma os_walk_files:
  "walk_files P (os_walk keep chain t) =
   filter (\<lambda>(ch, f). (\<forall>d \<in> set (drop (length chain) ch). keep d) \<and> P f) (fs_files chain t)"
proof (induction keep chain t rule: os_walk.induct)
  case (1 keep chain subs files)
  let ?Q = "\<lambda>n (ch, f). (\<forall>d \<in> set (drop n ch). keep d) \<and> P f"
  have top: "filter (?Q (length chain)) (map (Pair chain) files) = map (Pair chain) (filter P files)"
    by (induction files) auto
  have sub: "concat (map (\<lambda>(d, t). walk_files P (os_walk keep (chain @ [d]) t)) (filter (\<lambda>(d, t). keep d) subs))
      = concat (map (\<lambda>(d, t). filter (?Q (length chain)) (fs_files (chain @ [d]) t)) subs)"
  proof (rule concat_map_filter_eq)
    fix x assume x: "x \<in> set subs" and k: "case x of (d, t) \<Rightarrow> keep d"
    obtain d t where [simp]: "x = (d, t)" by (cases x)
    from k have kd: "keep d" by simp
    from x kd have mem: "(d, t) \<in> set (filter (\<lambda>(d, t). keep d) subs)" by simp
    have "walk_files P (os_walk keep (chain @ [d]) t) = filter (?Q (length (chain @ [d]))) (fs_files (chain @ [d]) t)"
      using "1.IH" [OF mem refl] .
    also have "\<dots> = filter (?Q (length chain)) (fs_files (chain @ [d]) t)"
    proof (rule filter_cong [OF refl])
      fix y assume y: "y \<in> set (fs_files (chain @ [d]) t)"
      obtain ch f where [simp]: "y = (ch, f)" by (cases y)
      from y fs_files_prefix obtain ext where "ch = (chain @ [d]) @ ext" by fastforce
      then show "?Q (length (chain @ [d])) y = ?Q (length chain) y" using kd by simp
    qed
    finally show "(case x of (d, t) \<Rightarrow> walk_files P (os_walk keep (chain @ [d]) t)) =
        (case x of (d, t) \<Rightarrow> filter (?Q (length chain)) (fs_files (chain @ [d]) t))" by simp
  next
    fix x assume x: "x \<in> set subs" and k: "\<not> (case x of (d, t) \<Rightarrow> keep d)"
    obtain d t where [simp]: "x = (d, t)" by (cases x)
    from k have kd: "\<not> keep d" by simp
    have "filter (?Q (length chain)) (fs_files (chain @ [d]) t) = []"
    proof -
      have "\<And>y. y \<in> set (fs_files (chain @ [d]) t) \<Longrightarrow> \<not> ?Q (length chain) y"
      proof -
        fix y assume y: "y \<in> set (fs_files (chain @ [d]) t)"
        obtain ch f where [simp]: "y = (ch, f)" by (cases y)
        from y fs_files_prefix obtain ext where "ch = (chain @ [d]) @ ext" by fastforce
        then show "\<not> ?Q (length chain) y" using kd by simp
      qed
      then show ?thesis by (simp add: filter_empty_conv)
    qed
    then show "(case x of (d, t) \<Rightarrow> filter (?Q (length chain)) (fs_files (chain @ [d]) t)) = []" by simp
  qed
  have "walk_files P (os_walk keep chain (Dir subs files)) =
      map (Pair chain) (filter P files) @
      concat (map (\<lambda>(d, t). walk_files P (os_walk keep (chain @ [d]) t)) (filter (\<lambda>(d, t). keep d) subs))"
    by (simp add: walk_files_concat comp_def case_prod_unfold)
  also have "\<dots> = filter (?Q (length chain)) (fs_files chain (Dir subs files))"
    by (simp add: top [unfolded case_prod_unfold] sub [unfolded case_prod_unfold]
        filter_concat comp_def case_prod_unfold)
  finally show ?case .
qed

lemma os_walk_kept:
  "(ch, dns, fns) \<in> set (os_walk keep chain t) \<Longrightarrow>
   (\<forall>d \<in> set dns. keep d) \<and> (\<exists>ext. ch = chain @ ext \<and> (\<forall>d \<in> set ext. keep d))"
proof (induction keep chain t arbitrary: ch dns fns rule: os_walk.induct)
  case (1 keep chain subs files)
  from "1.prems" consider "ch = chain" "dns = filter keep (map fst subs)"
    | d t where "(d, t) \<in> set (filter (\<lambda>(d, t). keep d) subs)"
        "(ch, dns, fns) \<in> set (os_walk keep (chain @ [d]) t)"
    by auto
  then show ?case
  proof cases
    case 1
    then show ?thesis by simp
  next
    case 2
    from "1.IH" [OF 2(1) refl 2(2)] obtain ext where
      a: "\<forall>d \<in> set dns. keep d" and b: "ch = (chain @ [d]) @ ext" and c: "\<forall>d \<in> set ext. keep d"
      by blast
    from 2(1) have "keep d" by simp
    with b c have "ch = chain @ (d # ext) \<and> (\<forall>x \<in> set (d # ext). keep x)" by simp
    with a show ?thesis by blast
  qed
qed

lemma scan_walk_files:
  "concat (map (\<lambda>(chain, dirnames, filenames). map (g chain) (filter P filenames)) W) =
   map (\<lambda>(chain, fname). g chain fname) (walk_files P W)"
  by (induction W) (auto simp: comp_def)

text \<open>
  Claim C7. In a local scan, no directory whose name matches the glob \<open>.*\<close> is
  visited or left in \<open>dirnames\<close>, and the result is exactly the files of the tree
  that lie under no such directory and pass the include and exclude patterns,
  whatever these patterns are.
\<close>

theorem scan_skips_hidden:
  "dir_tree E topdir = Some t \<Longrightarrow>
   (\<forall>(chain, dirnames, filenames) \<in> set (walked E topdir).
      (\<forall>d \<in> set chain. \<not> hidden E d) \<and> (\<forall>d \<in> set dirnames. \<not> hidden E d)) \<and>
   scan E topdir include_patterns exclude_patterns =
     map (\<lambda>(chain, fname). os_path_join (dirpath_of topdir chain) fname)
       (filter (\<lambda>(chain, fname).
            (\<forall>d \<in> set chain. \<not> hidden E d) \<and>
            matches_any E fname (case include_patterns of None \<Rightarrow> [''*''] | Some ps \<Rightarrow> ps) \<and>
            \<not> matches_any E fname exclude_patterns)
          (fs_files [] t))"
proof (intro conjI)
  assume t: "dir_tree E topdir = Some t"
  show "\<forall>(chain, dirnames, filenames) \<in> set (walked E topdir).
      (\<forall>d \<in> set chain. \<not> hidden E d) \<and> (\<forall>d \<in> set dirnames. \<not> hidden E d)"
  proof (clarify, intro conjI)
    fix chain dirnames filenames
    assume "(chain, dirnames, filenames) \<in> set (walked E topdir)"
    with t have "(chain, dirnames, filenames) \<in> set (os_walk (\<lambda>d. \<not> hidden E d) [] t)"
      by (simp add: walked_def)
    from os_walk_kept [OF this]
    show "\<forall>d \<in> set chain. \<not> hidden E d" and "\<forall>d \<in> set dirnames. \<not> hidden E d"
      by auto
  qed
  let ?inc = "case include_patterns of None \<Rightarrow> [''*''] | Some ps \<Rightarrow> ps"
  let ?P = "\<lambda>fname. matches_any E fname ?inc \<and> \<not> matches_any E fname exclude_patterns"
  have "scan E topdir include_patterns exclude_patterns =
      map (\<lambda>(chain, fname). os_path_join (dirpath_of topdir chain) fname)
        (walk_files ?P (os_walk (\<lambda>d. \<not> hidden E d) [] t))"
    using t by (simp add: scan_def walked_def scan_walk_files)
  also have "walk_files ?P (os_walk (\<lambda>d. \<not> hidden E d) [] t) =
      filter (\<lambda>(chain, fname). (\<forall>d \<in> set chain. \<not> hidden E d) \<and> ?P fname) (fs_files [] t)"
    by (simp add: os_walk_files)
  finally show "scan E topdir include_patterns exclude_patterns =
     map (\<lambda>(chain, fname). os_path_join (dirpath_of topdir chain) fname)
       (filter (\<lambda>(chain, fname).
            (\<forall>d \<in> set chain. \<not> hidden E d) \<and> matches_any E fname ?inc \<and>
            \<not> matches_any E fname exclude_patterns)
          (fs_files [] t))" .
qed

theorem scan_skips_hidden_witness:
  "dir_tree demo_env ''/data/'' = Some demo_tree \<and>
   ([''.git''], ''c.txt'') \<in> set (fs_files [] demo_tree) \<and>
   hidden demo_env ''.git'' \<and>
   scan demo_env ''/data/'' (Some [''*'']) [] =
     [''/data/m.csv'', ''/data/e.yml'', ''/data/catA/a.txt'', ''/data/catA/bad.txt'',
      ''/data/catB/b.txt'']"
proof -
  have t: "dir_tree demo_env ''/data/'' = Some demo_tree"
    by (simp add: demo_env_def)
  have h [simp]: "hidden demo_env ''.git''" "\<not> hidden demo_env ''catA''" "\<not> hidden demo_env ''catB''"
    by (simp_all add: hidden_def demo_env_def)
  have m [simp]: "\<And>f. matches_any demo_env f [''*'']" "\<And>f. \<not> matches_any demo_env f []"
    by (simp_all add: matches_any_def demo_env_def, induct_tac f, simp_all)
  from scan_skips_hidden [OF t, of "Some [''*'']" "[]"]
  have "scan demo_env ''/data/'' (Some [''*'']) [] =
     map (\<lambda>(chain, fname). os_path_join (dirpath_of ''/data/'' chain) fname)
       (filter (\<lambda>(chain, fname). (\<forall>d \<in> set chain. \<not> hidden demo_env d))
          (fs_files [] demo_tree))"
    by simp
  then show ?thesis
    using t by (simp add: demo_tree_def dirpath_of_def os_path_join_def)
qed

subsection \<open>What reading changes in the world\<close>

lemma url_read_file_frame:
  "url_read_file n E u w = (r, w') \<Longrightarrow>
   observed w' = observed w \<and> reads w' = reads w \<and> reports w' = reports w"
proof (induction n arbitrary: u w r w')
  case 0
  then show ?case by auto
next
  case (Suc n)
  show ?case
  proof (cases "fetch E u")
    case (Inl e)
    with Suc.prems show ?thesis by auto
  next
    case (Inr resp)
    define f_name where "f_name = mkstemp E (created w) @ concat (path_suffixes (suggested_name resp))"
    define w1 where "w1 = w\<lparr>created := Suc (created w), tmpfiles := f_name # tmpfiles w\<rparr>"
    have w1: "observed w1 = observed w \<and> reads w1 = reads w \<and> reports w1 = reports w"
      by (simp add: w1_def)
    show ?thesis
    proof (cases "body resp")
      case (Inl e)
      with Suc.prems Inr w1 show ?thesis
        by (auto simp: Let_def w1_def f_name_def)
    next
      case b: (Inr bytes)
      define inner where "inner =
        (case cls (get_reader f_name) of
           Reader \<Rightarrow> (Inl NotImplementedError, w1)
         | UrlReader \<Rightarrow> url_read_file n E f_name w1
         | c \<Rightarrow> (parse E c bytes, w1))"
      obtain r2 w2 where i: "inner = (r2, w2)" by (cases inner)
      have w2: "observed w2 = observed w1 \<and> reads w2 = reads w1 \<and> reports w2 = reports w1"
        using i Suc.IH [of f_name w1 r2 w2]
        by (cases "cls (get_reader f_name)") (auto simp: inner_def)
      have "url_read_file (Suc n) E u w =
          (case r2 of Inl e \<Rightarrow> (Inl e, w2)
           | Inr c \<Rightarrow> (Inr c, w2\<lparr>tmpfiles := remove1 f_name (tmpfiles w2)\<rparr>))"
        using Inr b i unfolding inner_def w1_def f_name_def by (simp add: Let_def)
      with Suc.prems w1 w2 show ?thesis
        by (cases r2) auto
    qed
  qed
qed

lemma read_file_frame:
  "read_file E rd w = (r, w') \<Longrightarrow>
   observed w' = observed w \<and> reads w' = reads w \<and> reports w' = reports w"
  by (cases "cls rd")
     (auto simp: read_file_def split: sum.splits dest: url_read_file_frame)

lemma read_frame:
  assumes "read E rd w = (r, w')"
  shows "observed w' = observed w \<and> reads w' = reads w @ [rpath rd] \<and> reports w' = reports w"
proof -
  obtain r1 w1 where rf: "read_file E rd (w\<lparr>reads := reads w @ [rpath rd]\<rparr>) = (r1, w1)"
    by (cases "read_file E rd (w\<lparr>reads := reads w @ [rpath rd]\<rparr>)")
  from read_file_frame [OF rf] have f: "observed w1 = observed w \<and> reads w1 = reads w @ [rpath rd] \<and> reports w1 = reports w"
    by simp
  from assms rf have "w' = w1"
    by (auto simp: read_def split: sum.splits)
  with f show ?thesis by simp
qed

lemma report_step_frame:
  "report_step self n p td nb w = (nb', w') \<Longrightarrow> observed w' = observed w \<and> reads w' = reads w"
  by (auto simp: report_step_def split: if_splits)

lemma check_cancelled_frame:
  "check_cancelled E w = (c, w') \<Longrightarrow>
   observed w' = observed w @ [c] \<and> reads w' = reads w \<and> reports w' = reports w"
  by (auto simp: check_cancelled_def Let_def)

subsection \<open>Cancellation\<close>

lemma text_loop_observed:
  "text_loop E self n ps td errs nb w = (r, w') \<Longrightarrow>
   \<exists>obs. observed w' = observed w @ obs \<and>
     (r = Inr None \<longrightarrow> obs \<noteq> [] \<and> last obs \<and> True \<notin> set (butlast obs)) \<and>
     (r \<noteq> Inr None \<longrightarrow> True \<notin> set obs) \<and>
     ((\<exists>x. r = Inr x) \<longrightarrow> length (reads w') = length (reads w) + length obs)"
proof (induction ps arbitrary: td errs nb w)
  case Nil
  then show ?case by auto
next
  case (Cons p ps)
  obtain nb1 w1 where rs: "report_step self n p td nb w = (nb1, w1)"
    by (cases "report_step self n p td nb w")
  obtain rr w2 where rd: "read E (reader_for self p) w1 = (rr, w2)"
    by (cases "read E (reader_for self p) w1")
  from report_step_frame [OF rs] read_frame [OF rd]
  have f2: "observed w2 = observed w" "reads w2 = reads w @ [p]"
    by (simp_all add: reader_for_def get_reader_def new_UrlReader_def)
  show ?case
  proof (cases rr)
    case (Inl e)
    with Cons.prems rs rd have "r = Inl e" "w' = w2" by simp_all
    with f2 show ?thesis by simp
  next
    case (Inr te)
    obtain tx error where te: "te = (tx, error)" by (cases te)
    obtain td' errs' nb2 where co: "collect_text tx error td errs nb1 = (td', errs', nb2)"
      by (cases "collect_text tx error td errs nb1")
    obtain c w3 where ch: "check_cancelled E w2 = (c, w3)"
      by (cases "check_cancelled E w2")
    from check_cancelled_frame [OF ch] f2
    have f3: "observed w3 = observed w @ [c]" "reads w3 = reads w @ [p]" by simp_all
    show ?thesis
    proof (cases c)
      case True
      with Cons.prems rs rd Inr te co ch have "r = Inr None" "w' = w3" by simp_all
      with f3 True show ?thesis by simp
    next
      case False
      with Cons.prems rs rd Inr te co ch
      have "text_loop E self n ps td' errs' nb2 w3 = (r, w')" by simp
      from Cons.IH [OF this] obtain obs where
        o: "observed w' = observed w3 @ obs"
          "r = Inr None \<longrightarrow> obs \<noteq> [] \<and> last obs \<and> True \<notin> set (butlast obs)"
          "r \<noteq> Inr None \<longrightarrow> True \<notin> set obs"
          "(\<exists>x. r = Inr x) \<longrightarrow> length (reads w') = length (reads w3) + length obs"
        by blast
      have "observed w' = observed w @ (c # obs)" using o(1) f3 by simp
      moreover have "r = Inr None \<longrightarrow> c # obs \<noteq> [] \<and> last (c # obs) \<and> True \<notin> set (butlast (c # obs))"
        using o(2) False by auto
      moreover have "r \<noteq> Inr None \<longrightarrow> True \<notin> set (c # obs)"
        using o(3) False by auto
      moreover have "(\<exists>x. r = Inr x) \<longrightarrow> length (reads w') = length (reads w) + length (c # obs)"
        using o(4) f3 by auto
      ultimately show ?thesis by blast
    qed
  qed
qed

lemma meta_loop_observed:
  "meta_loop E self ps dfs errs w = (r, w') \<Longrightarrow>
   \<exists>obs. observed w' = observed w @ obs \<and>
     (r = Inr None \<longrightarrow> obs \<noteq> [] \<and> last obs \<and> True \<notin> set (butlast obs)) \<and>
     (r \<noteq> Inr None \<longrightarrow> True \<notin> set obs) \<and>
     ((\<exists>x. r = Inr x) \<longrightarrow> length (reads w') = length (reads w) + length obs)"
proof (induction ps arbitrary: dfs errs w)
  case Nil
  then show ?case by (auto split: if_splits sum.splits)
next
  case (Cons p ps)
  obtain rr w2 where rd: "read E (reader_for self p) w = (rr, w2)"
    by (cases "read E (reader_for self p) w")
  from read_frame [OF rd]
  have f2: "observed w2 = observed w" "reads w2 = reads w @ [p]"
    by (simp_all add: reader_for_def get_reader_def new_UrlReader_def)
  show ?case
  proof (cases rr)
    case (Inl e)
    with Cons.prems rd have "r = Inl e" "w' = w2" by simp_all
    with f2 show ?thesis by simp
  next
    case (Inr te)
    obtain data error where te: "te = (data, error)" by (cases te)
    obtain dfs' errs' where co: "collect_meta data error dfs errs = (dfs', errs')"
      by (cases "collect_meta data error dfs errs")
    obtain c w3 where ch: "check_cancelled E w2 = (c, w3)"
      by (cases "check_cancelled E w2")
    from check_cancelled_frame [OF ch] f2
    have f3: "observed w3 = observed w @ [c]" "reads w3 = reads w @ [p]" by simp_all
    show ?thesis
    proof (cases c)
      case True
      with Cons.prems rd Inr te co ch have "r = Inr None" "w' = w3" by simp_all
      with f3 True show ?thesis by simp
    next
      case False
      with Cons.prems rd Inr te co ch
      have "meta_loop E self ps dfs' errs' w3 = (r, w')" by simp
      from Cons.IH [OF this] obtain obs where
        o: "observed w' = observed w3 @ obs"
          "r = Inr None \<longrightarrow> obs \<noteq> [] \<and> last obs \<and> True \<notin> set (butlast obs)"
          "r \<noteq> Inr None \<longrightarrow> True \<notin> set obs"
          "(\<exists>x. r = Inr x) \<longrightarrow> length (reads w') = length (reads w3) + length obs"
        by blast
      have "observed w' = observed w @ (c # obs)" using o(1) f3 by simp
      moreover have "r = Inr None \<longrightarrow> c # obs \<noteq> [] \<and> last (c # obs) \<and> True \<notin> set (butlast (c # obs))"
        using o(2) False by auto
      moreover have "r \<noteq> Inr None \<longrightarrow> True \<notin> set (c # obs)"
        using o(3) False by auto
      moreover have "(\<exists>x. r = Inr x) \<longrightarrow> length (reads w') = length (reads w) + length (c # obs)"
        using o(4) f3 by auto
      ultimately show ?thesis by blast
    qed
  qed
qed

lemma run_observed:
  assumes "run E self w = (r, w')"
  shows "\<exists>obs. observed w' = observed w @ obs \<and>
     (True \<in> set obs \<longrightarrow>
        r = Inl TypeError \<and> last obs \<and> True \<notin> set (butlast obs) \<and>
        length (reads w') = length (reads w) + length obs)"
proof -
  obtain r1 w1 where t: "read_text_data E self w = (r1, w1)"
    by (cases "read_text_data E self w")
  have "\<exists>obs. observed w1 = observed w @ obs \<and>
     (r1 = Inr None \<longrightarrow> obs \<noteq> [] \<and> last obs \<and> True \<notin> set (butlast obs)) \<and>
     (r1 \<noteq> Inr None \<longrightarrow> True \<notin> set obs) \<and>
     ((\<exists>x. r1 = Inr x) \<longrightarrow> length (reads w1) = length (reads w) + length obs)"
    using t text_loop_observed [of E self _ _ "[]" "[]" 0 w r1 w1]
    by (auto simp: read_text_data_def split: sum.splits if_splits)
  then obtain obs1 where
    o1: "observed w1 = observed w @ obs1"
      "r1 = Inr None \<longrightarrow> obs1 \<noteq> [] \<and> last obs1 \<and> True \<notin> set (butlast obs1)"
      "r1 \<noteq> Inr None \<longrightarrow> True \<notin> set obs1"
      "(\<exists>x. r1 = Inr x) \<longrightarrow> length (reads w1) = length (reads w) + length obs1"
    by blast
  show ?thesis
  proof (cases r1)
    case (Inl e)
    with assms t have "w' = w1" by (simp add: run_def)
    with o1 Inl show ?thesis by auto
  next
    case (Inr x)
    show ?thesis
    proof (cases x)
      case None
      with assms t Inr have "r = Inl TypeError" "w' = w1" by (simp_all add: run_def)
      with o1 Inr None show ?thesis by auto
    next
      case (Some te)
      obtain r2 w2 where m: "read_meta_data E self w1 = (r2, w2)"
        by (cases "read_meta_data E self w1")
      have "\<exists>obs. observed w2 = observed w1 @ obs \<and>
         (r2 = Inr None \<longrightarrow> obs \<noteq> [] \<and> last obs \<and> True \<notin> set (butlast obs)) \<and>
         (r2 \<noteq> Inr None \<longrightarrow> True \<notin> set obs) \<and>
         ((\<exists>x. r2 = Inr x) \<longrightarrow> length (reads w2) = length (reads w1) + length obs)"
        using m meta_loop_observed [of E self _ "[]" "[]" w1 r2 w2]
        by (auto simp: read_meta_data_def split: sum.splits)
      then obtain obs2 where
        o2: "observed w2 = observed w1 @ obs2"
          "r2 = Inr None \<longrightarrow> obs2 \<noteq> [] \<and> last obs2 \<and> True \<notin> set (butlast obs2)"
          "r2 \<noteq> Inr None \<longrightarrow> True \<notin> set obs2"
          "(\<exists>x. r2 = Inr x) \<longrightarrow> length (reads w2) = length (reads w1) + length obs2"
        by blast
      from o1 Inr Some have n1: "True \<notin> set obs1" "length (reads w1) = length (reads w) + length obs1"
        by auto
      have w': "w' = w2"
        using assms t m Inr Some
        by (cases te) (auto simp: run_def split: sum.splits option.splits)
      have obs: "observed w' = observed w @ (obs1 @ obs2)"
        using o1(1) o2(1) w' by simp
      have "True \<in> set (obs1 @ obs2) \<longrightarrow>
        r = Inl TypeError \<and> last (obs1 @ obs2) \<and> True \<notin> set (butlast (obs1 @ obs2)) \<and>
        length (reads w') = length (reads w) + length (obs1 @ obs2)"
      proof
        assume "True \<in> set (obs1 @ obs2)"
        with n1 have "True \<in> set obs2" by simp
        with o2(3) have r2: "r2 = Inr None" by blast
        with o2 have l: "obs2 \<noteq> []" "last obs2" "True \<notin> set (butlast obs2)"
          "length (reads w2) = length (reads w1) + length obs2" by auto
        from assms t m Inr Some r2 have "r = Inl TypeError"
          by (cases te) (simp add: run_def)
        moreover from l n1 have "True \<notin> set (butlast (obs1 @ obs2))"
          by (simp add: butlast_append)
        ultimately show "r = Inl TypeError \<and> last (obs1 @ obs2) \<and> True \<notin> set (butlast (obs1 @ obs2)) \<and>
          length (reads w') = length (reads w) + length (obs1 @ obs2)"
          using l n1 w' by simp
      qed
      with obs show ?thesis by blast
    qed
  qed
qed

lemma demo_cancel_run:
  "run demo_cancel_env demo_local init_world =
     (Inl TypeError,
      \<lparr>reads = [''/data/catA/a.txt'', ''/data/catA/bad.txt''], tmpfiles = [], created = 0,
       reports = [\<lparr>progress = 1 / 3, lastpath = ''/data/catA/bad.txt'',
                   batch = [[\<lparr>name = ''a'', path = ''/data/catA/a.txt'', ext = [''.txt''],
                             category = ''catA'', content = Text ''/data/catA/a.txt''\<rparr>]]\<rparr>],
       observed = [False, True]\<rparr>)"
  by code_simp

text \<open>
  Claim C3. When a run sees the cancellation flag set (it looks once after each
  completed read of a document or of a metadata file), it ends there: that look is
  the last one, no file is read after it, and \<open>run\<close> returns no pair of a corpus and
  an error list. It ends with the \<open>TypeError\<close> of unpacking the \<open>None\<close> that the
  reading method has returned.
\<close>

theorem cancelled_run_yields_nothing:
  assumes "run E self init_world = (r, w')" and "True \<in> set (observed w')"
  shows "r = Inl TypeError \<and> (\<forall>res. r \<noteq> Inr res) \<and> last (observed w') \<and>
    True \<notin> set (butlast (observed w')) \<and> length (reads w') = length (observed w')"
  using run_observed [OF assms(1)] assms(2) by (auto simp: init_world_def)

theorem cancelled_run_yields_nothing_witness:
  "fst (run demo_cancel_env demo_local init_world) = Inl TypeError \<and>
   observed (snd (run demo_cancel_env demo_local init_world)) = [False, True] \<and>
   length (reads (snd (run demo_cancel_env demo_local init_world))) = 2"
proof -
  obtain r w' where e: "run demo_cancel_env demo_local init_world = (r, w')"
    by (cases "run demo_cancel_env demo_local init_world")
  with demo_cancel_run have o: "observed w' = [False, True]" by auto
  then have "True \<in> set (observed w')" by simp
  from cancelled_run_yields_nothing [OF e this] o e show ?thesis by simp
qed

subsection \<open>A run in which every document fails to read\<close>

text \<open>
  Claim C2 says that such a run returns \<open>None\<close> with the error list. It does not:
  \<open>create_corpus\<close> returns \<open>None\<close> and \<open>add_metadata\<close> then reads \<^verbatim>\<open>corpus.domain\<close>, so
  the run ends with an \<open>AttributeError\<close>. Here every file of \<open>/data/\<close> is unreadable.
\<close>

theorem all_reads_fail_run:
  "run demo_denied_env demo_local init_world =
     (Inl AttributeError,
      \<lparr>reads = [''/data/catA/a.txt'', ''/data/catA/bad.txt'', ''/data/catB/b.txt'',
                ''/data/m.csv'', ''/data/e.yml''],
       tmpfiles = [], created = 0, reports = [],
       observed = [False, False, False, False, False]\<rparr>)"
  by code_simp

subsection \<open>The temporary file of a remote fetch\<close>

text \<open>
  Claim C9 says that the temporary file is deleted on every exit path. It is deleted
  on the successful one only: when the reader of the temporary file raises (here the
  suggested name is \<open>x.bin\<close>, for which there is no reader), \<open>read_file\<close> leaves
  before \<^verbatim>\<open>os.remove\<close> and the file stays.
\<close>

theorem temp_file_left_on_failure:
  "url_read_file 3 demo_env ''http://h/a.pdf'' init_world =
     (Inl NotImplementedError,
      \<lparr>reads = [], tmpfiles = [''/tmp/t.bin''], created = 1, reports = [], observed = []\<rparr>)"
  by code_simp

subsection \<open>Metadata files with the suffix \<open>.yml\<close>\<close>

text \<open>
  Claim C10, as amended. In a local run, a path of the metadata scan with the suffix
  \<open>.yml\<close> gets the base reader from \<open>get_reader\<close>; its \<open>read\<close> returns no record
  and the file name, and the step of the loop leaves the collected tables as they
  are and appends the file name to the errors.
\<close>

theorem yml_local_fallback:
  assumes "\<not> is_url self" and "path_suffix p = ''.yml''"
  shows "cls (reader_for self p) = Reader \<and>
    read E (reader_for self p) w = (Inr (None, path_name p), w\<lparr>reads := reads w @ [p]\<rparr>) \<and>
    meta_loop E self (p # ps) meta_dfs errs w =
      (if cancelled E (length (observed w))
       then (Inr None, w\<lparr>reads := reads w @ [p], observed := observed w @ [True]\<rparr>)
       else meta_loop E self ps meta_dfs (errs @ [path_name p])
              (w\<lparr>reads := reads w @ [p], observed := observed w @ [False]\<rparr>))"
proof -
  have c: "cls (reader_for self p) = Reader" and p: "rpath (reader_for self p) = p"
    using assms by (simp_all add: reader_for_def get_reader_def registry_def)
  then have r: "read E (reader_for self p) w = (Inr (None, path_name p), w\<lparr>reads := reads w @ [p]\<rparr>)"
    by (simp add: read_def read_file_def)
  show ?thesis
    using c r by (simp add: collect_meta_def check_cancelled_def Let_def)
qed

theorem yml_local_fallback_witness:
  "\<not> is_url demo_local \<and> path_suffix ''/data/e.yml'' = ''.yml'' \<and>
   cls (reader_for demo_local ''/data/e.yml'') = Reader \<and>
   meta_loop demo_env demo_local [''/data/e.yml''] [] [] init_world =
     (Inr (Some (None, [''e.yml''])),
      init_world\<lparr>reads := [''/data/e.yml''], observed := [False]\<rparr>)"
proof -
  have a: "\<not> is_url demo_local"
    by (simp add: demo_local_def new_ImportDocuments_def)
  have b: "path_suffix ''/data/e.yml'' = ''.yml''" and n: "path_name ''/data/e.yml'' = ''e.yml''"
    by (simp_all add: path_suffix_def path_name_def path_components_def name_suffix_def)
  have f: "\<not> cancelled demo_env (length (observed init_world))"
    by (simp add: demo_env_def)
  from yml_local_fallback [OF a b, of demo_env init_world "[]" "[]" "[]"] f a b
  show ?thesis
    by (simp add: n init_world_def del: meta_loop.simps(2))
qed

text \<open>
  The claim as stated covers remote runs too. There every path is read by a
  \<open>UrlReader\<close>, and the reader of the downloaded file follows the name the server
  suggests: a \<open>.yml\<close> URL served as \<open>m.yaml\<close> yields a row and no error.
\<close>

theorem yml_remote_counterexample:
  "is_url demo_remote \<and>
   do_scan demo_env demo_remote [''*.csv'', ''*.yaml'', ''*.yml''] = Inr [''http://h/m.yml''] \<and>
   path_suffix ''http://h/m.yml'' = ''.yml'' \<and>
   cls (reader_for demo_remote ''http://h/m.yml'') = UrlReader \<and>
   fst (read_meta_data demo_env demo_remote init_world) =
     Inr (Some (Some \<lparr>columns = [''Text file''], rows = [[Str ''k'']]\<rparr>, []))"
  by code_simp

subsection \<open>Corpus assembly\<close>

lemma py_set_list_props:
  "set (py_set_list rank xs) = set xs" "distinct (py_set_list rank xs)"
  "length (py_set_list rank xs) = card (set xs)"
  by (simp_all add: py_set_list_def length_remdups_card_conv)

lemma to_val_known: "c \<in> set vs \<Longrightarrow> \<exists>v. to_val vs c = Inr v"
  by (simp add: to_val_def)

lemma corpus_rows_text:
  assumes "\<forall>t \<in> set td. \<exists>s. content t = Text s" and "category ` set td \<subseteq> set vs"
  shows "\<exists>rs ys. corpus_rows E vs td = Inr (rs, ys) \<and> length rs = length td \<and>
    map Inr ys = map (\<lambda>t. to_val vs (category t)) td"
  using assms
proof (induction td)
  case Nil
  then show ?case by simp
next
  case (Cons t td)
  from Cons.prems obtain s where s: "content t = Text s" by auto
  from Cons.prems have "category t \<in> set vs" by auto
  from to_val_known [OF this] obtain v where v: "to_val vs (category t) = Inr v" by blast
  from Cons obtain rs ys where "corpus_rows E vs td = Inr (rs, ys)" "length rs = length td"
    "map Inr ys = map (\<lambda>t. to_val vs (category t)) td" by auto
  with s v show ?case by simp
qed

text \<open>
  Claim C5. For a batch of records with text contents: an empty batch gives no
  corpus; otherwise the corpus has the column \<open>category\<close> exactly when the records
  have more than one distinct category. Then it is the one class variable, over
  exactly the distinct categories, and \<open>Y\<close> holds each record's value (\<open>to_val\<close> raises
  for none of them); with one category there is no class variable and \<open>Y\<close> has no
  column.
\<close>

theorem category_column_iff:
  assumes "\<forall>t \<in> set td. \<exists>s. content t = Text s"
  shows "(if td = [] then create_corpus E td = Inr None
          else \<exists>c. create_corpus E td = Inr (Some c) \<and>
            (''category'' \<in> set (domain_names c)) = (1 < card (category ` set td)) \<and>
            (if 1 < card (category ` set td)
             then \<exists>vs. class_vars c = [(''category'', vs)] \<and> set vs = category ` set td \<and>
                    distinct vs \<and> map (map Inr) (Y c) = map (\<lambda>t. [to_val vs (category t)]) td
             else class_vars c = [] \<and> Y c = replicate (length td) []))"
proof (cases "td = []")
  case True
  then show ?thesis by (simp add: create_corpus_def)
next
  case False
  define cats where "cats = py_set_list (rank1 E) (map category td)"
  define vs where "vs = py_set_list (rank2 E) cats"
  have n: "length cats = card (category ` set td)"
    by (simp add: cats_def py_set_list_props)
  have v: "set vs = category ` set td" "distinct vs"
    by (simp_all add: vs_def cats_def py_set_list_props)
  from corpus_rows_text [OF assms, of vs E] v(1) obtain rs ys where
    rs: "corpus_rows E vs td = Inr (rs, ys)" "length rs = length td"
      "map Inr ys = map (\<lambda>t. to_val vs (category t)) td" by auto
  have ne: "rs \<noteq> []" using rs(2) False by auto
  show ?thesis
  proof (cases "1 < card (category ` set td)")
    case True
    have "create_corpus E td =
        Inr (Some \<lparr>class_vars = [(''category'', vs)], Y = map (\<lambda>v. [v]) ys,
                   meta_names = [''name'', ''path'', ''content''], metas = rs,
                   title_vars = [''name''], text_features = [''content'']\<rparr>)"
      using rs ne False True n
      by (simp add: create_corpus_def Let_def cats_def [symmetric] vs_def [symmetric])
    moreover have "map (map Inr) (map (\<lambda>v. [v]) ys) = map (\<lambda>t. [to_val vs (category t)]) td"
    proof -
      have "map (map Inr) (map (\<lambda>v. [v]) ys) = map (\<lambda>x. [x]) (map Inr ys)" by simp
      also have "\<dots> = map (\<lambda>t. [to_val vs (category t)]) td" unfolding rs(3) by simp
      finally show ?thesis .
    qed
    ultimately show ?thesis using v True False
      by (simp add: domain_names_def)
  next
    case f: False
    have "create_corpus E td =
        Inr (Some \<lparr>class_vars = [], Y = replicate (length td) [],
                   meta_names = [''name'', ''path'', ''content''], metas = rs,
                   title_vars = [''name''], text_features = [''content'']\<rparr>)"
      using rs ne False f n
      by (simp add: create_corpus_def Let_def cats_def [symmetric] vs_def [symmetric])
    with f False show ?thesis
      by (simp add: domain_names_def)
  qed
qed

theorem category_column_iff_witness:
  "(\<exists>c. create_corpus demo_env [demo_doc, demo_doc_b] = Inr (Some c) \<and>
        ''category'' \<in> set (domain_names c) \<and> card (category ` set [demo_doc, demo_doc_b]) = 2) \<and>
   (\<exists>c. create_corpus demo_env [demo_doc] = Inr (Some c) \<and>
        ''category'' \<notin> set (domain_names c) \<and> class_vars c = [] \<and> Y c = [[]])"
proof -
  have a: "\<forall>t \<in> set [demo_doc, demo_doc_b]. \<exists>s. content t = Text s"
    and b: "\<forall>t \<in> set [demo_doc]. \<exists>s. content t = Text s"
    by (simp_all add: demo_doc_def demo_doc_b_def)
  have c2: "card (category ` set [demo_doc, demo_doc_b]) = 2"
    and c1: "card (category ` set [demo_doc]) = 1"
    by (simp_all add: demo_doc_def demo_doc_b_def)
  from category_column_iff [OF a, of demo_env] c2
  have "\<exists>c. create_corpus demo_env [demo_doc, demo_doc_b] = Inr (Some c) \<and>
        ''category'' \<in> set (domain_names c)"
    by auto
  moreover from category_column_iff [OF b, of demo_env] c1
  have "\<exists>c. create_corpus demo_env [demo_doc] = Inr (Some c) \<and>
        ''category'' \<notin> set (domain_names c) \<and> class_vars c = [] \<and> Y c = [[]]"
    by auto
  ultimately show ?thesis using c2 by blast
qed

subsection \<open>Progress notifications\<close>

lemma text_loop_step:
  "text_loop E self n_paths (p # ps) td errs nb w =
     (let emit = (nb = 1 \<and> report_progress self);
          nb1 = (if emit then 0 else nb);
          w1 = (if emit
                then w\<lparr>reports := reports w @
                         [\<lparr>progress = of_nat (length td) / of_nat n_paths, lastpath = p,
                           batch = [td]\<rparr>]\<rparr>
                else w)
      in case read E (reader_for self p) w1 of
           (Inl e, w2) \<Rightarrow> (Inl e, w2)
         | (Inr (None, error), w2) \<Rightarrow>
             if cancelled E (length (observed w2))
             then (Inr None, w2\<lparr>observed := observed w2 @ [True]\<rparr>)
             else text_loop E self n_paths ps td (errs @ [error]) nb1
                    (w2\<lparr>observed := observed w2 @ [False]\<rparr>)
         | (Inr (Some t, error), w2) \<Rightarrow>
             if cancelled E (length (observed w2))
             then (Inr None, w2\<lparr>observed := observed w2 @ [True]\<rparr>)
             else text_loop E self n_paths ps (td @ [t]) errs (Suc nb1)
                    (w2\<lparr>observed := observed w2 @ [False]\<rparr>))"
proof (cases "nb = 1 \<and> report_progress self")
  case True
  define w1 where "w1 = w\<lparr>reports := reports w @
      [\<lparr>progress = of_nat (length td) / of_nat n_paths, lastpath = p, batch = [td]\<rparr>]\<rparr>"
  have rs: "report_step self n_paths p td nb w = (0, w1)"
    using True by (simp add: report_step_def w1_def)
  obtain rr w2 where rd: "read E (reader_for self p) w1 = (rr, w2)"
    by (cases "read E (reader_for self p) w1")
  have e: "(nb = 1 \<and> report_progress self) = True" using True by simp
  show ?thesis
    unfolding text_loop.simps Let_def e if_True w1_def [symmetric] rs rd prod.case
    by (simp add: collect_text_def check_cancelled_def Let_def
        split: sum.splits option.splits prod.splits)
next
  case False
  have rs: "report_step self n_paths p td nb w = (nb, w)"
    using False by (auto simp: report_step_def)
  obtain rr w2 where rd: "read E (reader_for self p) w = (rr, w2)"
    by (cases "read E (reader_for self p) w")
  have e: "(nb = 1 \<and> report_progress self) = False" using False by simp
  show ?thesis
    unfolding text_loop.simps Let_def e if_False rs rd prod.case
    by (simp add: collect_text_def check_cancelled_def Let_def
        split: sum.splits option.splits prod.splits)
qed

lemma text_loop_cons_some:
  assumes l: "text_loop E self n (p # ps) td errs nb w = (Inr (Some res), w')"
    and rp: "report_progress self" and nb: "nb \<le> 1"
  shows "\<exists>ex errs' w3. length ex \<le> 1 \<and>
      text_loop E self n ps (td @ ex) errs' (length ex) w3 = (Inr (Some res), w') \<and>
      reports w3 = reports w @
        (if nb = 1
         then [\<lparr>progress = of_nat (length td) / of_nat n, lastpath = p, batch = [td]\<rparr>]
         else [])"
proof -
  define x0 where "x0 = \<lparr>progress = (of_nat (length td) :: rat) / of_nat n, lastpath = p, batch = [td]\<rparr>"
  define w1 where "w1 = (if nb = 1 then w\<lparr>reports := reports w @ [x0]\<rparr> else w)"
  have r1: "reports w1 = reports w @ (if nb = 1 then [x0] else [])"
    by (simp add: w1_def)
  have nb1: "(if nb = 1 \<and> report_progress self then 0 else nb) = 0"
    using nb rp by auto
  obtain rr w2 where rd: "read E (reader_for self p) w1 = (rr, w2)"
    by (cases "read E (reader_for self p) w1")
  from read_frame [OF rd] have r2: "reports w2 = reports w1" by simp
  have st: "text_loop E self n (p # ps) td errs nb w =
      (case (rr, w2) of
         (Inl e, w2) \<Rightarrow> (Inl e, w2)
       | (Inr (None, error), w2) \<Rightarrow>
           if cancelled E (length (observed w2))
           then (Inr None, w2\<lparr>observed := observed w2 @ [True]\<rparr>)
           else text_loop E self n ps td (errs @ [error]) 0
                  (w2\<lparr>observed := observed w2 @ [False]\<rparr>)
       | (Inr (Some t, error), w2) \<Rightarrow>
           if cancelled E (length (observed w2))
           then (Inr None, w2\<lparr>observed := observed w2 @ [True]\<rparr>)
           else text_loop E self n ps (td @ [t]) errs (Suc 0)
                  (w2\<lparr>observed := observed w2 @ [False]\<rparr>))"
    unfolding text_loop_step Let_def nb1 rd [symmetric] w1_def x0_def using rp by simp
  define w3 where "w3 = w2\<lparr>observed := observed w2 @ [False]\<rparr>"
  have r3: "reports w3 = reports w @ (if nb = 1 then [x0] else [])"
    using r1 r2 by (simp add: w3_def)
  show ?thesis
  proof (cases rr)
    case (Inl e)
    with l st show ?thesis by simp
  next
    case (Inr te)
    obtain tx error where te: "te = (tx, error)" by (cases te)
    show ?thesis
    proof (cases tx)
      case None
      with l st Inr te have "text_loop E self n ps (td @ []) (errs @ [error]) (length ([] :: text_data list)) w3
          = (Inr (Some res), w')"
        by (simp add: w3_def split: if_splits)
      with r3 show ?thesis
        unfolding x0_def by (intro exI [of _ "[]"] exI [of _ "errs @ [error]"] exI [of _ w3]) simp
    next
      case (Some t)
      with l st Inr te have "text_loop E self n ps (td @ [t]) errs (length [t]) w3 = (Inr (Some res), w')"
        by (simp add: w3_def split: if_splits)
      with r3 show ?thesis
        unfolding x0_def by (intro exI [of _ "[t]"] exI [of _ errs] exI [of _ w3]) simp
    qed
  qed
qed

lemma text_loop_reports:
  assumes "text_loop E self n ps td errs nb w = (Inr (Some (tdf, ef)), w')"
    and "report_progress self" and "nb \<le> 1"
  shows "take (length td) tdf = td \<and> length td \<le> length tdf \<and>
     (\<exists>new. reports w' = reports w @ new \<and>
        (length new + (Suc (length td) - nb) = length tdf \<or>
         length new + (Suc (length td) - nb) = Suc (length tdf)) \<and>
        (\<forall>j < length new.
           progress (new ! j) = of_nat (Suc (length td) - nb + j) / of_nat n \<and>
           batch (new ! j) = [take (Suc (length td) - nb + j) tdf]) \<and>
        subseq (map lastpath new) ps)"
  using assms
proof (induction ps arbitrary: td errs nb w)
  case Nil
  then have "tdf = td" "w' = w" by simp_all
  moreover from Nil.prems(3) have "nb = 0 \<or> nb = 1" by auto
  ultimately show ?case by (intro conjI exI [of _ "[]"]) auto
next
  case (Cons p ps)
  define x0 where "x0 = \<lparr>progress = (of_nat (length td) :: rat) / of_nat n, lastpath = p, batch = [td]\<rparr>"
  from text_loop_cons_some [OF Cons.prems] obtain ex errs' w3 where
    ex: "length ex \<le> 1"
    and l: "text_loop E self n ps (td @ ex) errs' (length ex) w3 = (Inr (Some (tdf, ef)), w')"
    and r3: "reports w3 = reports w @ (if nb = 1 then [x0] else [])"
    unfolding x0_def by blast
  from Cons.IH [OF l Cons.prems(2) ex] obtain new' where
    pre: "take (length (td @ ex)) tdf = td @ ex" "length (td @ ex) \<le> length tdf"
    and n1: "reports w' = reports w3 @ new'"
    and n2: "length new' + (Suc (length (td @ ex)) - length ex) = length tdf \<or>
         length new' + (Suc (length (td @ ex)) - length ex) = Suc (length tdf)"
    and n3: "\<forall>j < length new'.
           progress (new' ! j) = of_nat (Suc (length (td @ ex)) - length ex + j) / of_nat n \<and>
           batch (new' ! j) = [take (Suc (length (td @ ex)) - length ex + j) tdf]"
    and n4: "subseq (map lastpath new') ps"
    by blast
  have s': "Suc (length (td @ ex)) - length ex = Suc (length td)" by simp
  have tk: "take (length td) tdf = td"
  proof -
    have "take (length td) tdf = take (length td) (take (length (td @ ex)) tdf)"
      by (simp add: min_def)
    also have "\<dots> = td" unfolding pre(1) by simp
    finally show ?thesis .
  qed
  have le: "length td \<le> length tdf" using pre(2) by simp
  from Cons.prems(3) have "nb = 0 \<or> nb = 1" by auto
  then show ?case
  proof
    assume nb: "nb = 0"
    have "reports w' = reports w @ new'" using n1 r3 nb by simp
    moreover have "length new' + (Suc (length td) - nb) = length tdf \<or>
         length new' + (Suc (length td) - nb) = Suc (length tdf)"
      using n2 nb unfolding s' by simp
    moreover have "\<forall>j < length new'.
           progress (new' ! j) = of_nat (Suc (length td) - nb + j) / of_nat n \<and>
           batch (new' ! j) = [take (Suc (length td) - nb + j) tdf]"
      using n3 nb unfolding s' by simp
    moreover have "subseq (map lastpath new') (p # ps)" using n4 by (rule list_emb_Cons)
    ultimately show ?thesis using tk le by blast
  next
    assume nb: "nb = 1"
    have "reports w' = reports w @ (x0 # new')" using n1 r3 nb by simp
    moreover have "length (x0 # new') + (Suc (length td) - nb) = length tdf \<or>
         length (x0 # new') + (Suc (length td) - nb) = Suc (length tdf)"
      using n2 nb unfolding s' by simp
    moreover have "\<forall>j < length (x0 # new').
           progress ((x0 # new') ! j) = of_nat (Suc (length td) - nb + j) / of_nat n \<and>
           batch ((x0 # new') ! j) = [take (Suc (length td) - nb + j) tdf]"
    proof (intro allI impI)
      fix j assume j: "j < length (x0 # new')"
      show "progress ((x0 # new') ! j) = of_nat (Suc (length td) - nb + j) / of_nat n \<and>
           batch ((x0 # new') ! j) = [take (Suc (length td) - nb + j) tdf]"
      proof (cases j)
        case 0
        then show ?thesis using nb tk by (simp add: x0_def)
      next
        case (Suc i)
        with j have "i < length new'" by simp
        with n3 have "progress (new' ! i) = of_nat (Suc (length td) + i) / of_nat n \<and>
           batch (new' ! i) = [take (Suc (length td) + i) tdf]"
          unfolding s' by blast
        then show ?thesis using Suc nb by simp
      qed
    qed
    moreover have "subseq (map lastpath (x0 # new')) (p # ps)"
      using n4 by (simp add: x0_def)
    ultimately show ?thesis using tk le by blast
  qed
qed

text \<open>
  Claim C8, as amended. The notification comes before a path is read, not after.
  One pass of the loop, exactly: when the loop reaches a path with exactly one item
  in the batch and a callback is set, it sends one notification, whose progress is
  the number of documents read successfully so far over the number of paths, whose
  \<open>lastpath\<close> is the path it is about to read, and whose batch is the list holding the
  list of all documents read so far, and it empties the batch; otherwise it sends
  nothing. It then reads the path; a document read successfully adds one item to the
  batch, a failed read adds none. For a whole reading phase that completes with a
  callback set: there is one notification for each successfully read document, in
  the order of reading, except that a document read from the last path gets none;
  the \<open>j\<close>-th carries \<open>j\<close> over the number of paths and the first \<open>j\<close> documents, and the
  paths named are taken, in order, from the paths after the first.
\<close>

theorem progress_report_before_read:
  "text_loop E self n_paths (p # ps) td errs nb w =
     (let emit = (nb = 1 \<and> report_progress self);
          nb1 = (if emit then 0 else nb);
          w1 = (if emit
                then w\<lparr>reports := reports w @
                         [\<lparr>progress = of_nat (length td) / of_nat n_paths, lastpath = p,
                           batch = [td]\<rparr>]\<rparr>
                else w)
      in case read E (reader_for self p) w1 of
           (Inl e, w2) \<Rightarrow> (Inl e, w2)
         | (Inr (None, error), w2) \<Rightarrow>
             if cancelled E (length (observed w2))
             then (Inr None, w2\<lparr>observed := observed w2 @ [True]\<rparr>)
             else text_loop E self n_paths ps td (errs @ [error]) nb1
                    (w2\<lparr>observed := observed w2 @ [False]\<rparr>)
         | (Inr (Some t, error), w2) \<Rightarrow>
             if cancelled E (length (observed w2))
             then (Inr None, w2\<lparr>observed := observed w2 @ [True]\<rparr>)
             else text_loop E self n_paths ps (td @ [t]) errs (Suc nb1)
                    (w2\<lparr>observed := observed w2 @ [False]\<rparr>)) \<and>
   (report_progress self \<longrightarrow>
    do_scan E self (map (\<lambda>fmt. ''*.'' @ lower E fmt) (formats self)) = Inr paths \<longrightarrow>
    read_text_data E self v = (Inr (Some (tdf, ef)), v') \<longrightarrow>
    (\<exists>new. reports v' = reports v @ new \<and>
       (length new = length tdf \<or> Suc (length new) = length tdf) \<and>
       (\<forall>j < length new.
          progress (new ! j) = of_nat (Suc j) / of_nat (length paths) \<and>
          batch (new ! j) = [take (Suc j) tdf]) \<and>
       subseq (map lastpath new) (tl paths)))"
proof (intro conjI impI)
  show "text_loop E self n_paths (p # ps) td errs nb w =
     (let emit = (nb = 1 \<and> report_progress self);
          nb1 = (if emit then 0 else nb);
          w1 = (if emit
                then w\<lparr>reports := reports w @
                         [\<lparr>progress = of_nat (length td) / of_nat n_paths, lastpath = p,
                           batch = [td]\<rparr>]\<rparr>
                else w)
      in case read E (reader_for self p) w1 of
           (Inl e, w2) \<Rightarrow> (Inl e, w2)
         | (Inr (None, error), w2) \<Rightarrow>
             if cancelled E (length (observed w2))
             then (Inr None, w2\<lparr>observed := observed w2 @ [True]\<rparr>)
             else text_loop E self n_paths ps td (errs @ [error]) nb1
                    (w2\<lparr>observed := observed w2 @ [False]\<rparr>)
         | (Inr (Some t, error), w2) \<Rightarrow>
             if cancelled E (length (observed w2))
             then (Inr None, w2\<lparr>observed := observed w2 @ [True]\<rparr>)
             else text_loop E self n_paths ps (td @ [t]) errs (Suc nb1)
                    (w2\<lparr>observed := observed w2 @ [False]\<rparr>))"
    by (rule text_loop_step)
next
  assume rp: "report_progress self"
    and sc: "do_scan E self (map (\<lambda>fmt. ''*.'' @ lower E fmt) (formats self)) = Inr paths"
    and rt: "read_text_data E self v = (Inr (Some (tdf, ef)), v')"
  from rt sc have ne: "paths \<noteq> []"
    by (auto simp: read_text_data_def)
  then obtain q qs where paths: "paths = q # qs" by (cases paths) auto
  from rt sc ne have l: "text_loop E self (length paths) (q # qs) [] [] 0 v = (Inr (Some (tdf, ef)), v')"
    by (simp add: read_text_data_def paths)
  from text_loop_cons_some [OF l rp] obtain ex errs' w3 where
    ex: "length ex \<le> 1"
    and l3: "text_loop E self (length paths) qs ([] @ ex) errs' (length ex) w3 = (Inr (Some (tdf, ef)), v')"
    and r3: "reports w3 = reports v"
    by auto
  from text_loop_reports [OF l3 rp ex] obtain new where
    n1: "reports v' = reports w3 @ new"
    and n2: "length new + (Suc (length ([] @ ex)) - length ex) = length tdf \<or>
         length new + (Suc (length ([] @ ex)) - length ex) = Suc (length tdf)"
    and n3: "\<forall>j < length new.
           progress (new ! j) = of_nat (Suc (length ([] @ ex)) - length ex + j) / of_nat (length paths) \<and>
           batch (new ! j) = [take (Suc (length ([] @ ex)) - length ex + j) tdf]"
    and n4: "subseq (map lastpath new) qs"
    by blast
  have s: "Suc (length ([] @ ex)) - length ex = Suc 0" by simp
  have "reports v' = reports v @ new" using n1 r3 by simp
  moreover have "length new = length tdf \<or> Suc (length new) = length tdf"
    using n2 unfolding s by auto
  moreover have "\<forall>j < length new.
          progress (new ! j) = of_nat (Suc j) / of_nat (length paths) \<and>
          batch (new ! j) = [take (Suc j) tdf]"
    using n3 unfolding s by simp
  moreover have "subseq (map lastpath new) (tl paths)"
    using n4 by (simp add: paths)
  ultimately show "\<exists>new. reports v' = reports v @ new \<and>
       (length new = length tdf \<or> Suc (length new) = length tdf) \<and>
       (\<forall>j < length new.
          progress (new ! j) = of_nat (Suc j) / of_nat (length paths) \<and>
          batch (new ! j) = [take (Suc j) tdf]) \<and>
       subseq (map lastpath new) (tl paths)"
    by blast
qed

lemma demo_text_phase:
  "do_scan demo_env demo_local (map (\<lambda>fmt. ''*.'' @ lower demo_env fmt) (formats demo_local)) =
     Inr [''/data/catA/a.txt'', ''/data/catA/bad.txt'', ''/data/catB/b.txt'']"
  "read_text_data demo_env demo_local init_world =
     (Inr (Some ([demo_doc, demo_doc_b], [''bad.txt''])),
      \<lparr>reads = [''/data/catA/a.txt'', ''/data/catA/bad.txt'', ''/data/catB/b.txt''],
       tmpfiles = [], created = 0,
       reports = [\<lparr>progress = 1 / 3, lastpath = ''/data/catA/bad.txt'', batch = [[demo_doc]]\<rparr>],
       observed = [False, False, False]\<rparr>)"
  by code_simp+

theorem progress_report_before_read_witness:
  "report_progress demo_local \<and>
   (\<exists>tdf ef w'. read_text_data demo_env demo_local init_world = (Inr (Some (tdf, ef)), w') \<and>
      length tdf = 2 \<and>
      (\<exists>x. reports w' = [x] \<and> progress x = 1 / 3 \<and> batch x = [take 1 tdf] \<and>
           lastpath x = ''/data/catA/bad.txt''))"
proof -
  have rp: "report_progress demo_local"
    by (simp add: demo_local_def new_ImportDocuments_def)
  from progress_report_before_read [THEN conjunct2, rule_format, OF rp demo_text_phase]
  obtain new where
    n: "[\<lparr>progress = 1 / 3, lastpath = ''/data/catA/bad.txt'', batch = [[demo_doc]]\<rparr>] =
        reports init_world @ new"
    and b: "\<forall>j < length new.
          progress (new ! j) = of_nat (Suc j) / of_nat (length [''/data/catA/a.txt'', ''/data/catA/bad.txt'', ''/data/catB/b.txt'']) \<and>
          batch (new ! j) = [take (Suc j) [demo_doc, demo_doc_b]]"
    by auto
  from n have new: "new = [\<lparr>progress = 1 / 3, lastpath = ''/data/catA/bad.txt'', batch = [[demo_doc]]\<rparr>]"
    by (simp add: init_world_def)
  with b have "progress (new ! 0) = 1 / 3 \<and> batch (new ! 0) = [take 1 [demo_doc, demo_doc_b]]"
    by simp
  with new rp demo_text_phase(2) show ?thesis
    by auto
qed

text \<open>
  The claim as stated fails on the run over \<open>/data/\<close>: \<open>a.txt\<close> and \<open>b.txt\<close> are read
  successfully, each leaving one item in the batch, and one notification is sent,
  not two. It is sent before \<open>bad.txt\<close> is read and names that path, with one
  document of three done; after the read of \<open>b.txt\<close>, the last path, nothing is sent.
\<close>

theorem progress_report_counterexample:
  "report_progress demo_local \<and>
   fst (read_text_data demo_env demo_local init_world) = Inr (Some ([demo_doc, demo_doc_b], [''bad.txt''])) \<and>
   reads (snd (read_text_data demo_env demo_local init_world)) =
     [''/data/catA/a.txt'', ''/data/catA/bad.txt'', ''/data/catB/b.txt''] \<and>
   reports (snd (read_text_data demo_env demo_local init_world)) =
     [\<lparr>progress = 1 / 3, lastpath = ''/data/catA/bad.txt'', batch = [[demo_doc]]\<rparr>]"
  by code_simp

subsection \<open>Metadata join\<close>

lemma map_of_keep_first:
  "map_of (keep_first seen xs) k = (if k \<in> set seen then None else map_of xs k)"
proof (induction xs arbitrary: seen)
  case Nil
  then show ?case by simp
next
  case (Cons x xs)
  obtain a r where x: "x = (a, r)" by (cases x)
  show ?case using Cons.IH [of seen] Cons.IH [of "a # seen"] x by auto
qed

lemma keep_first_keys:
  "distinct (map fst (keep_first seen xs)) \<and> set (map fst (keep_first seen xs)) \<inter> set seen = {}"
proof (induction xs arbitrary: seen)
  case Nil
  then show ?case by simp
next
  case (Cons x xs)
  obtain a r where x: "x = (a, r)" by (cases x)
  show ?case using Cons.IH [of seen] Cons.IH [of "a # seen"] x by auto
qed

lemma map_of_find:
  "map_of (map (\<lambda>r. (key r, val r)) rs) k = map_option val (find (\<lambda>r. key r = k) rs)"
  by (induction rs) auto

lemma zip_map_same: "zip (map f xs) (map g xs) = map (\<lambda>x. (f x, g x)) xs"
  by (induction xs) auto

lemma set_index_ok:
  assumes "object_dtype (key_column md)" and "\<not> list_ex is_num (key_column md)"
  shows "set_index sd md =
    Inr (map (\<lambda>r. (prefix_cell sd (cell_of (columns md) r META_DATA_FILE_KEY),
                    map (cell_of (columns md) r) (columns md))) (rows md))"
  using assms by (simp add: set_index_def str_add_column_def key_column_def zip_map_same comp_def)

lemma set_index_type_error:
  assumes "\<not> (object_dtype (key_column md) \<and> \<not> list_ex is_num (key_column md))"
  shows "set_index sd md = Inl TypeError"
  using assms by (auto simp: set_index_def str_add_column_def)

lemma reindex_first_match:
  "reindex (length (columns md))
     (keep_first [] (map (\<lambda>r. (prefix_cell sd (cell_of (columns md) r META_DATA_FILE_KEY),
                    map (cell_of (columns md) r) (columns md))) (rows md))) labels =
   map (first_match_row sd md) labels"
  by (simp add: reindex_def map_of_keep_first map_of_find first_match_row_def
      option.case_eq_if option.map_sel)

lemma first_match_row_length: "length (first_match_row sd md k) = length (columns md)"
  by (simp add: first_match_row_def split: option.splits)

lemma add_column_nth:
  assumes "length vals = length (metas c)" and "i < length (metas c)"
  shows "metas (add_column c n vals) ! i = metas c ! i @ [vals ! i]"
  using assms by (simp add: add_column_def)

lemma add_column_simps:
  "class_vars (add_column c n vals) = class_vars c"
  "Y (add_column c n vals) = Y c"
  "meta_names (add_column c n vals) = meta_names c @ [n]"
  "length vals = length (metas c) \<Longrightarrow> length (metas (add_column c n vals)) = length (metas c)"
  "domain_names (add_column c n vals) = domain_names c @ [n]"
  by (simp_all add: add_column_def domain_names_def)

lemma add_columns_spec:
  assumes "\<forall>ns n. get_unique_names E ns n \<notin> set ns"
    and "length filtered = length (metas c)"
    and "\<forall>f \<in> set filtered. j + length cols \<le> length f"
    and "distinct (domain_names c)"
  shows "class_vars (add_columns E filtered j cols c) = class_vars c \<and>
    Y (add_columns E filtered j cols c) = Y c \<and>
    (\<exists>new. meta_names (add_columns E filtered j cols c) = meta_names c @ new \<and>
       length new = length cols \<and>
       (\<forall>k < length cols. new ! k = get_unique_names E (domain_names c @ take k new) (cols ! k))) \<and>
    distinct (domain_names (add_columns E filtered j cols c)) \<and>
    length (metas (add_columns E filtered j cols c)) = length (metas c) \<and>
    (\<forall>i < length (metas c).
       metas (add_columns E filtered j cols c) ! i = metas c ! i @ take (length cols) (drop j (filtered ! i)))"
  using assms(2-)
proof (induction cols arbitrary: j c)
  case Nil
  then show ?case by simp
next
  case (Cons col cols)
  define n where "n = get_unique_names E (domain_names c) col"
  define c1 where "c1 = add_column c n (column_at j filtered)"
  have lv: "length (column_at j filtered) = length (metas c)"
    using Cons.prems(1) by (simp add: column_at_def)
  have fresh: "n \<notin> set (domain_names c)"
    using assms(1) by (simp add: n_def)
  have l1: "length filtered = length (metas c1)"
    using Cons.prems(1) lv by (simp add: c1_def add_column_simps)
  have b1: "\<forall>f \<in> set filtered. Suc j + length cols \<le> length f"
    using Cons.prems(2) by auto
  have d1: "distinct (domain_names c1)"
    using Cons.prems(3) fresh by (simp add: c1_def add_column_simps)
  note ih = Cons.IH [OF l1 b1 d1]
  have eq: "add_columns E filtered j (col # cols) c = add_columns E filtered (Suc j) cols c1"
    by (simp add: c1_def n_def)
  have rows: "\<forall>i < length (metas c).
       metas (add_columns E filtered (Suc j) cols c1) ! i =
       metas c ! i @ take (length (col # cols)) (drop j (filtered ! i))"
  proof (intro allI impI)
    fix i assume i: "i < length (metas c)"
    then have i1: "i < length (metas c1)" using l1 Cons.prems(1) by simp
    from i Cons.prems(1) have fi: "filtered ! i \<in> set filtered" by simp
    with Cons.prems(2) have jl: "j < length (filtered ! i)" by fastforce
    have "metas c1 ! i = metas c ! i @ [filtered ! i ! j]"
      using add_column_nth [OF lv i, of n] i Cons.prems(1) jl
      by (simp add: c1_def column_at_def)
    moreover from ih i1
    have "metas (add_columns E filtered (Suc j) cols c1) ! i =
        metas c1 ! i @ take (length cols) (drop (Suc j) (filtered ! i))" by blast
    moreover have "filtered ! i ! j # take (length cols) (drop (Suc j) (filtered ! i)) =
        take (length (col # cols)) (drop j (filtered ! i))"
      using jl by (simp add: Cons_nth_drop_Suc [symmetric])
    ultimately show "metas (add_columns E filtered (Suc j) cols c1) ! i =
       metas c ! i @ take (length (col # cols)) (drop j (filtered ! i))" by simp
  qed
  from ih obtain new where new: "meta_names (add_columns E filtered (Suc j) cols c1) = meta_names c1 @ new"
    "length new = length cols"
    "\<forall>k < length cols. new ! k = get_unique_names E (domain_names c1 @ take k new) (cols ! k)"
    by blast
  have names: "\<exists>new'. meta_names (add_columns E filtered (Suc j) cols c1) = meta_names c @ new' \<and>
      length new' = length (col # cols) \<and>
      (\<forall>k < length (col # cols).
         new' ! k = get_unique_names E (domain_names c @ take k new') ((col # cols) ! k))"
  proof (intro exI [of _ "n # new"] conjI allI impI)
    show "meta_names (add_columns E filtered (Suc j) cols c1) = meta_names c @ n # new"
      using new(1) by (simp add: c1_def add_column_simps)
    show "length (n # new) = length (col # cols)" using new(2) by simp
    fix k assume k: "k < length (col # cols)"
    show "(n # new) ! k = get_unique_names E (domain_names c @ take k (n # new)) ((col # cols) ! k)"
    proof (cases k)
      case 0
      then show ?thesis by (simp add: n_def)
    next
      case (Suc i)
      with k have "i < length cols" by simp
      with new(3) have "new ! i = get_unique_names E (domain_names c1 @ take i new) (cols ! i)"
        by blast
      then show ?thesis using Suc by (simp add: c1_def add_column_simps)
    qed
  qed
  from ih rows names l1 Cons.prems(1) show ?case
    unfolding eq by (simp add: c1_def add_column_simps)
qed

text \<open>
  Claim C6. With a corpus that has a meta column \<open>path\<close> and a metadata table that has the
  file column, whose cells are texts or missing (pandas then types the column
  \<open>object\<close>, and the root location can be put before it): the join keys the rows by
  the root location followed by the file cell and keeps the first row of each key;
  it returns the corpus with one new meta column for each column of the table, after
  the existing ones, in the order of the table; the name of each is what
  \<open>get_unique_names\<close> makes of the table column's name and the names the corpus has
  at that moment, so all names stay distinct (\<open>get_unique_names\<close> returns a name that
  is not among those it is given); no row is added, removed or moved; and each row
  gets the cells of the first row of the table whose key is the row's path, missing
  cells when there is none. When the file column holds a number, or only \<open>NaN\<close>, the
  sum of the root location and the column is a \<open>TypeError\<close>.
\<close>

theorem metadata_join:
  assumes "\<forall>ns n. get_unique_names E ns n \<notin> set ns"
    and "''path'' \<in> set (meta_names c)"
    and "META_DATA_FILE_KEY \<in> set (columns md)"
    and "distinct (domain_names c)"
  shows "if object_dtype (key_column md) \<and> \<not> list_ex is_num (key_column md)
    then (\<exists>indexed. set_index (startdir self) md = Inr indexed \<and>
            distinct (map fst (keep_first [] indexed))) \<and>
      (\<exists>c'. add_metadata E self (Some md) (Some c) = Inr (Some c') \<and>
        class_vars c' = class_vars c \<and> Y c' = Y c \<and>
        (\<exists>new. meta_names c' = meta_names c @ new \<and> length new = length (columns md) \<and>
           (\<forall>k < length (columns md).
              new ! k = get_unique_names E (domain_names c @ take k new) (columns md ! k))) \<and>
        distinct (domain_names c') \<and>
        length (metas c') = length (metas c) \<and>
        (\<forall>i < length (metas c).
           metas c' ! i =
           metas c ! i @ first_match_row (startdir self) md (get_column_view c ''path'' ! i)))
    else add_metadata E self (Some md) (Some c) = Inl TypeError"
proof (cases "object_dtype (key_column md) \<and> \<not> list_ex is_num (key_column md)")
  case False
  from set_index_type_error [OF False] assms(2,3) have
    "add_metadata E self (Some md) (Some c) = Inl TypeError"
    by (simp add: add_metadata_def domain_names_def)
  with False show ?thesis by simp
next
  case True
  define indexed where "indexed =
    map (\<lambda>r. (prefix_cell (startdir self) (cell_of (columns md) r META_DATA_FILE_KEY),
               map (cell_of (columns md) r) (columns md))) (rows md)"
  have si: "set_index (startdir self) md = Inr indexed"
    using True set_index_ok [of md "startdir self"] by (simp add: indexed_def)
  have di: "distinct (map fst (keep_first [] indexed))"
    using keep_first_keys [of "[]" indexed] by blast
  define labels where "labels = get_column_view c ''path''"
  define filtered where "filtered = map (first_match_row (startdir self) md) labels"
  have ll: "length labels = length (metas c)"
    by (simp add: labels_def get_column_view_def column_at_def)
  have eq: "add_metadata E self (Some md) (Some c) =
      Inr (Some (add_columns E filtered 0 (columns md) c))"
    using assms(2,3) si reindex_first_match [of md "startdir self" labels]
    by (simp add: add_metadata_def Let_def filtered_def labels_def domain_names_def indexed_def)
  have l: "length filtered = length (metas c)"
    by (simp add: filtered_def ll)
  have b: "\<forall>f \<in> set filtered. 0 + length (columns md) \<le> length f"
    by (auto simp: filtered_def first_match_row_length)
  note sp = add_columns_spec [OF assms(1) l b assms(4)]
  have rows: "\<forall>i < length (metas c).
      metas (add_columns E filtered 0 (columns md) c) ! i =
      metas c ! i @ first_match_row (startdir self) md (get_column_view c ''path'' ! i)"
  proof (intro allI impI)
    fix i assume i: "i < length (metas c)"
    with sp have "metas (add_columns E filtered 0 (columns md) c) ! i =
        metas c ! i @ take (length (columns md)) (drop 0 (filtered ! i))" by blast
    moreover have "filtered ! i = first_match_row (startdir self) md (labels ! i)"
      using i ll by (simp add: filtered_def)
    ultimately show "metas (add_columns E filtered 0 (columns md) c) ! i =
      metas c ! i @ first_match_row (startdir self) md (get_column_view c ''path'' ! i)"
      by (simp add: first_match_row_length labels_def)
  qed
  from sp rows have "\<exists>c'. add_metadata E self (Some md) (Some c) = Inr (Some c') \<and>
        class_vars c' = class_vars c \<and> Y c' = Y c \<and>
        (\<exists>new. meta_names c' = meta_names c @ new \<and> length new = length (columns md) \<and>
           (\<forall>k < length (columns md).
              new ! k = get_unique_names E (domain_names c @ take k new) (columns md ! k))) \<and>
        distinct (domain_names c') \<and>
        length (metas c') = length (metas c) \<and>
        (\<forall>i < length (metas c).
           metas c' ! i =
           metas c ! i @ first_match_row (startdir self) md (get_column_view c ''path'' ! i))"
    unfolding eq by blast
  with True si di show ?thesis by auto
qed

lemma demo_unique_fresh: "demo_unique ns n \<notin> set ns"
proof (cases "n \<in> set ns")
  case True
  have "\<And>x. x \<in> set ns \<Longrightarrow> length x < length (n @ replicate (Suc (size_list length ns)) CHR ''+'')"
  proof -
    fix x assume "x \<in> set ns"
    then have "length x \<le> size_list length ns" by (rule size_list_estimation') simp
    then show "length x < length (n @ replicate (Suc (size_list length ns)) CHR ''+'')" by simp
  qed
  then have "n @ replicate (Suc (size_list length ns)) CHR ''+'' \<notin> set ns" by blast
  with True show ?thesis by (simp add: demo_unique_def)
next
  case False
  then show ?thesis by (simp add: demo_unique_def)
qed

lemma demo_join:
  "map_option (\<lambda>c. (take 4 (meta_names c), metas c))
     (projr (add_metadata demo_env demo_local (Some demo_frame) (Some demo_corpus))) =
     Some ([''name'', ''path'', ''content'', ''Text file''],
           [[Str ''a'', Str ''/data/catA/a.txt'', Str ''text a'', Str ''catA/a.txt'', Str ''first''],
            [Str ''b'', Str ''/data/catB/b.txt'', Str ''text b'', NaN, NaN]])"
  by code_simp

theorem metadata_join_witness:
  "object_dtype (key_column demo_frame) \<and> \<not> list_ex is_num (key_column demo_frame) \<and>
   (\<exists>c'. add_metadata demo_env demo_local (Some demo_frame) (Some demo_corpus) = Inr (Some c') \<and>
     distinct (domain_names c') \<and>
     length (meta_names c') = 5 \<and>
     take 4 (meta_names c') = [''name'', ''path'', ''content'', ''Text file''] \<and>
     metas c' =
       [[Str ''a'', Str ''/data/catA/a.txt'', Str ''text a'', Str ''catA/a.txt'', Str ''first''],
        [Str ''b'', Str ''/data/catB/b.txt'', Str ''text b'', NaN, NaN]])"
proof -
  have u: "\<forall>ns n. get_unique_names demo_env ns n \<notin> set ns"
    by (simp add: demo_env_def demo_unique_fresh)
  have p: "''path'' \<in> set (meta_names demo_corpus)"
    and d: "distinct (domain_names demo_corpus)"
    by (simp_all add: domain_names_def demo_corpus_def)
  have k: "META_DATA_FILE_KEY \<in> set (columns demo_frame)"
    by (simp add: META_DATA_FILE_KEY_def demo_frame_def)
  have ok: "object_dtype (key_column demo_frame) \<and> \<not> list_ex is_num (key_column demo_frame)"
    by code_simp
  from metadata_join [OF u p k d, of demo_local] ok obtain c' new where
    c: "add_metadata demo_env demo_local (Some demo_frame) (Some demo_corpus) = Inr (Some c')"
    and dn: "distinct (domain_names c')"
    and mn: "meta_names c' = meta_names demo_corpus @ new" "length new = length (columns demo_frame)"
    by auto
  from mn have "length (meta_names c') = 5"
    by (simp add: demo_corpus_def demo_frame_def)
  moreover from demo_join c have "take 4 (meta_names c') = [''name'', ''path'', ''content'', ''Text file'']"
    and "metas c' =
       [[Str ''a'', Str ''/data/catA/a.txt'', Str ''text a'', Str ''catA/a.txt'', Str ''first''],
        [Str ''b'', Str ''/data/catB/b.txt'', Str ''text b'', NaN, NaN]]"
    by simp_all
  ultimately show ?thesis using c dn ok by blast
qed

end
